theory Spec2Isabelle
  imports Main "HOL-Library.Word" "HOL-Library.Multiset"
begin

section \<open>Data model\<close>

text \<open>
  \<^verbatim>\<open>generate_manifest.py\<close> works on Python \<^verbatim>\<open>bytes\<close> (digests, encoded nonces) and on
  Python \<^verbatim>\<open>str\<close> (verses, names, hex strings).  A \<^verbatim>\<open>bytes\<close> value is a list of 8-bit
  words.  A \<^verbatim>\<open>str\<close> is a list of Unicode code points, so that a verse keeps one element
  per character whatever its script; \<open>lit\<close> turns an ASCII literal of the source
  into such a list.  Python integers are unbounded: counters that start at \<open>0\<close> and only
  grow are \<open>nat\<close>, everything else is \<open>int\<close>.
\<close>

type_synonym byte = "8 word"
type_synonym bytes = "byte list"
type_synonym str = "nat list"

definition lit :: "string \<Rightarrow> str" where
  "lit s = map of_char s"

text \<open>
  Every \<^verbatim>\<open>raise\<close> of the source and every exception of a built-in it calls is a value
  of \<open>error\<close>.  \<open>RuntimeError\<close> is the one the source raises itself (line 38, the
  specification's ExhaustionError); \<open>OverflowError\<close> is \<^verbatim>\<open>int.to_bytes\<close> on a value
  that does not fit; \<open>ZeroDivisionError\<close> is \<^verbatim>\<open>%\<close> by zero; \<open>IndexError\<close> and
  \<open>KeyError\<close> are subscripting; \<open>ValueError\<close> is \<^verbatim>\<open>int()\<close> on a string that is no
  number; \<open>UnicodeEncodeError\<close> is \<^verbatim>\<open>str.encode\<close>; \<open>FetchError\<close> stands for whatever
  the network and cache layer raises.
\<close>

datatype error =
    RuntimeError
  | OverflowError
  | ZeroDivisionError
  | IndexError
  | KeyError
  | ValueError
  | UnicodeEncodeError
  | FetchError

text \<open>
  The library functions the program calls but does not define are parameters of the
  model, collected in one record: \<^verbatim>\<open>hashlib.sha3_256(b).digest()\<close>,
  \<^verbatim>\<open>unicodedata.normalize("NFC", s)\<close>, \<^verbatim>\<open>s.encode("utf-8")\<close>, \<^verbatim>\<open>s.splitlines()\<close>,
  \<^verbatim>\<open>s.strip()\<close> and \<^verbatim>\<open>int(s)\<close>.  Every theorem below holds for all of their values,
  hence for the real ones.
\<close>

record prims =
  sha3_256 :: "bytes \<Rightarrow> bytes"
  normalize_nfc :: "str \<Rightarrow> str"
  encode_utf8 :: "str \<Rightarrow> error + bytes"
  splitlines :: "str \<Rightarrow> str list"
  strip :: "str \<Rightarrow> str"
  int_of_str :: "str \<Rightarrow> error + int"

section \<open>Utilities (lines 8 to 38)\<close>

definition nfc :: "prims \<Rightarrow> str \<Rightarrow> str" where
  "nfc P s = normalize_nfc P s"

definition sha3 :: "prims \<Rightarrow> bytes \<Rightarrow> bytes" where
  "sha3 P b = sha3_256 P b"

text \<open>\<^verbatim>\<open>bytes.hex()\<close>: two lowercase hexadecimal digits per byte, high nibble first.\<close>

definition hex_digit :: "nat \<Rightarrow> nat" where
  "hex_digit d = of_char (''0123456789abcdef'' ! d)"

definition hex_byte :: "byte \<Rightarrow> str" where
  "hex_byte w = [hex_digit (unat w div 16), hex_digit (unat w mod 16)]"

definition hhex :: "bytes \<Rightarrow> str" where
  "hhex b = concat (map hex_byte b)"

text \<open>\<^verbatim>\<open>int.from_bytes(b, "big")\<close>: the first byte is the most significant.\<close>

definition int_from_bytes_big :: "bytes \<Rightarrow> int" where
  "int_from_bytes_big b = foldl (\<lambda>acc x. acc * 256 + uint x) 0 b"

text \<open>
  \<^verbatim>\<open>int_mod(b, m)\<close> is \<^verbatim>\<open>int.from_bytes(b, "big") % m\<close>.  Python's \<^verbatim>\<open>%\<close> takes the sign
  of the divisor, as \<open>mod\<close> on \<open>int\<close> does, and raises on a zero divisor.
\<close>

definition int_mod :: "bytes \<Rightarrow> int \<Rightarrow> error + int" where
  "int_mod b m = (if m = 0 then Inl ZeroDivisionError else Inr (int_from_bytes_big b mod m))"

text \<open>
  \<^verbatim>\<open>n.to_bytes(length, "big")\<close> for a non-negative \<open>n\<close>: the \<open>length\<close> low-order
  base-256 digits, most significant first; OverflowError when \<open>n\<close> needs more.
\<close>

fun be_digits :: "nat \<Rightarrow> nat \<Rightarrow> bytes" where
  "be_digits 0 n = []"
| "be_digits (Suc k) n = be_digits k (n div 256) @ [of_nat (n mod 256)]"

definition to_bytes_big :: "nat \<Rightarrow> nat \<Rightarrow> error + bytes" where
  "to_bytes_big n len = (if n < 256 ^ len then Inr (be_digits len n) else Inl OverflowError)"

text \<open>
  \<^verbatim>\<open>find_nonce_for_mod19\<close>, lines 33 to 38.  \<open>find_nonce_from\<close> is the \<^verbatim>\<open>for\<close> loop
  over \<^verbatim>\<open>range(limit)\<close> with the loop variable as an argument: the body runs while
  \<open>nonce < limit\<close>, returns from inside the loop on the first hit, and falling off the
  end of the range reaches the \<^verbatim>\<open>raise\<close>.  A negative \<^verbatim>\<open>limit\<close> gives an empty range.
\<close>

function find_nonce_from :: "prims \<Rightarrow> bytes \<Rightarrow> nat \<Rightarrow> nat \<Rightarrow> error + (nat \<times> bytes)" where
  "find_nonce_from P root limit nonce =
     (if nonce < limit then
        (case to_bytes_big nonce 8 of
           Inl e \<Rightarrow> Inl e
         | Inr nb \<Rightarrow>
             (let h = sha3 P (root @ nb) in
              case int_mod h 19 of
                Inl e \<Rightarrow> Inl e
              | Inr r \<Rightarrow> if r = 0 then Inr (nonce, h) else find_nonce_from P root limit (Suc nonce)))
      else Inl RuntimeError)"
  by pat_completeness auto
termination
  by (relation "measure (\<lambda>(P, root, limit, nonce). limit - nonce)") auto

declare find_nonce_from.simps [simp del]

definition find_nonce_for_mod19 :: "prims \<Rightarrow> bytes \<Rightarrow> int \<Rightarrow> error + (nat \<times> bytes)" where
  "find_nonce_for_mod19 P root limit = find_nonce_from P root (nat limit) 0"

text \<open>The default of the \<^verbatim>\<open>limit\<close> parameter.\<close>

definition default_limit :: int where
  "default_limit = 2000000"

text \<open>
  The condition the search tests at a candidate \<open>n\<close>: the nonce fits in eight bytes and
  the digest of \<open>root || n\<close>, read as a big-endian number, is a multiple of 19.
\<close>

definition mod19_ok :: "prims \<Rightarrow> bytes \<Rightarrow> nat \<Rightarrow> bool" where
  "mod19_ok P root n =
     (case to_bytes_big n 8 of
        Inl e \<Rightarrow> False
      | Inr nb \<Rightarrow> int_mod (sha3 P (root @ nb)) 19 = Inr 0)"

text \<open>
  \<^verbatim>\<open>merkle_root\<close>, lines 17 to 28.  \<open>next_layer_from\<close> is the inner \<^verbatim>\<open>for\<close> loop over
  \<^verbatim>\<open>range(0, len(layer), 2)\<close> with the index \<open>i\<close> and the list \<open>nxt\<close> built so far as
  arguments; \<open>merkle_while\<close> is the \<^verbatim>\<open>while len(layer) > 1\<close> loop.  The final
  \<^verbatim>\<open>layer[0]\<close> raises IndexError on an empty list, and the model says so.
\<close>

function next_layer_from :: "prims \<Rightarrow> bytes list \<Rightarrow> nat \<Rightarrow> bytes list \<Rightarrow> bytes list" where
  "next_layer_from P layer i nxt =
     (if i < length layer then
        (let left = layer ! i;
             right = (if i + 1 < length layer then layer ! (i + 1) else left)
         in next_layer_from P layer (i + 2) (nxt @ [sha3 P (left @ right)]))
      else nxt)"
  by pat_completeness auto
termination
  by (relation "measure (\<lambda>(P, layer, i, nxt). length layer - i)") auto

declare next_layer_from.simps [simp del]

text \<open>
  The specification's wording of one level: hash each consecutive pair, and pair an
  unpaired final element with itself.
\<close>

fun pair_up :: "prims \<Rightarrow> bytes list \<Rightarrow> bytes list" where
  "pair_up P [] = []"
| "pair_up P [final] = [sha3 P (final @ final)]"
| "pair_up P (left # right # rest) = sha3 P (left @ right) # pair_up P rest"

lemma length_pair_up: "length (pair_up P xs) = (length xs + 1) div 2"
  by (induction P xs rule: pair_up.induct) auto

lemma next_layer_from_eq:
  "next_layer_from P layer i nxt = nxt @ pair_up P (drop i layer)"
proof (induction P layer i nxt rule: next_layer_from.induct)
  case (1 P layer i nxt)
  show ?case
  proof (cases "i < length layer")
    case False
    then show ?thesis by (subst next_layer_from.simps) simp
  next
    case True
    note i = True
    show ?thesis
    proof (cases "i + 1 < length layer")
      case True
      then have d: "drop i layer = layer ! i # layer ! (i + 1) # drop (i + 2) layer"
        by (metis Cons_nth_drop_Suc Suc_eq_plus1 add_2_eq_Suc' i)
      show ?thesis
        using i True "1.IH" [OF i refl refl]
        by (subst next_layer_from.simps) (simp add: d Let_def)
    next
      case False
      with i have d: "drop i layer = [layer ! i]" "drop (i + 2) layer = []"
        by (simp_all add: Cons_nth_drop_Suc [symmetric])
      show ?thesis
        using i False "1.IH" [OF i refl refl]
        by (subst next_layer_from.simps) (simp add: d Let_def)
    qed
  qed
qed

lemma length_next_layer_from:
  "length (next_layer_from P layer 0 []) = (length layer + 1) div 2"
  by (simp add: next_layer_from_eq length_pair_up)

function merkle_while :: "prims \<Rightarrow> bytes list \<Rightarrow> bytes list" where
  "merkle_while P layer =
     (if length layer > 1 then merkle_while P (next_layer_from P layer 0 []) else layer)"
  by pat_completeness auto
termination
  by (relation "measure (\<lambda>(P, layer). length layer)") (auto simp: length_next_layer_from)

declare merkle_while.simps [simp del]

definition merkle_root :: "prims \<Rightarrow> bytes list \<Rightarrow> error + bytes" where
  "merkle_root P leaves =
     (if leaves = [] then Inr (sha3 P [])
      else (case merkle_while P leaves of
              [] \<Rightarrow> Inl IndexError
            | r # _ \<Rightarrow> Inr r))"

text \<open>
  The specification's wording of the whole builder (section 4.3): the hash of the empty
  string for no leaves; otherwise one level after another until one element remains.
\<close>

function merkle_spec :: "prims \<Rightarrow> bytes list \<Rightarrow> bytes" where
  "merkle_spec P [] = sha3 P []"
| "merkle_spec P [h] = h"
| "merkle_spec P (a # b # rest) = merkle_spec P (pair_up P (a # b # rest))"
  by pat_completeness auto
termination
  by (relation "measure (\<lambda>(P, layer). length layer)") (auto simp: length_pair_up)

text \<open>
  The same function with Python's list objects made explicit, to say what a call does
  to its argument.  The heap is the sequence of list objects created so far, an address
  is a position in it, and a variable holds an address.  \<^verbatim>\<open>leaves[:]\<close> and \<^verbatim>\<open>[]\<close> create a
  new object, \<^verbatim>\<open>nxt.append(x)\<close> changes the object \<open>nxt\<close> points to, \<^verbatim>\<open>layer = nxt\<close> only
  changes the variable.  The length in \<^verbatim>\<open>range(0, len(layer), 2)\<close> is read once, before
  the loop.  The \<^verbatim>\<open>while\<close> loop is a partial function: that it returns is proved below.
\<close>

type_synonym addr = nat
type_synonym heap = "bytes list list"

definition new_list :: "heap \<Rightarrow> bytes list \<Rightarrow> addr \<times> heap" where
  "new_list h xs = (length h, h @ [xs])"

function next_layer_heap :: "prims \<Rightarrow> addr \<Rightarrow> nat \<Rightarrow> addr \<Rightarrow> nat \<Rightarrow> heap \<Rightarrow> heap" where
  "next_layer_heap P layer n nxt i h =
     (if i < n then
        (let left = h ! layer ! i;
             right = (if i + 1 < length (h ! layer) then h ! layer ! (i + 1) else left)
         in next_layer_heap P layer n nxt (i + 2) (h[nxt := h ! nxt @ [sha3 P (left @ right)]]))
      else h)"
  by pat_completeness auto
termination
  by (relation "measure (\<lambda>(P, layer, n, nxt, i, h). n - i)") auto

declare next_layer_heap.simps [simp del]

partial_function (option) merkle_while_heap ::
  "prims \<Rightarrow> addr \<Rightarrow> heap \<Rightarrow> ((error + bytes) \<times> heap) option" where
  "merkle_while_heap P layer h =
     (if length (h ! layer) > 1 then
        (case new_list h [] of
           (nxt, h1) \<Rightarrow>
             merkle_while_heap P nxt (next_layer_heap P layer (length (h1 ! layer)) nxt 0 h1))
      else Some (case h ! layer of [] \<Rightarrow> Inl IndexError | r # _ \<Rightarrow> Inr r, h))"

declare merkle_while_heap.simps [code]

definition merkle_root_heap ::
  "prims \<Rightarrow> addr \<Rightarrow> heap \<Rightarrow> ((error + bytes) \<times> heap) option" where
  "merkle_root_heap P leaves h =
     (if h ! leaves = [] then Some (Inr (sha3 P []), h)
      else (case new_list h (h ! leaves) of
              (layer, h1) \<Rightarrow> merkle_while_heap P layer h1))"

section \<open>The manifests (lines 72 to 167)\<close>

text \<open>
  One entry of a manifest, the dictionary appended at lines 99 to 107 and 158 to 166.
  The two builders write the same keys but one: the root is stored under
  \<^verbatim>\<open>chapter_root_hex\<close> by the Qur'an builder and under \<^verbatim>\<open>sidra_root_hex\<close> by the Torah
  builder; the field \<open>root_hex\<close> stands for both.  A manifest is the profile and the list
  of entries, stored under \<^verbatim>\<open>chapters\<close> or \<^verbatim>\<open>sidrot\<close>.
\<close>

record unit_entry =
  name :: str
  verse_count :: nat
  verse_hashes_hex :: "str list"
  root_hex :: str
  nonce_uint64 :: nat
  sealed_root_hex :: str
  sealed_root_mod19 :: int

record manifest =
  profile :: "(str \<times> str) list"
  units :: "unit_entry list"

text \<open>
  The list comprehension \<^verbatim>\<open>[sha3(v.encode("utf-8")) for v in verses]\<close>: it stops at the
  first verse that cannot be encoded.
\<close>

fun verse_hashes_of :: "prims \<Rightarrow> str list \<Rightarrow> error + bytes list" where
  "verse_hashes_of P [] = Inr []"
| "verse_hashes_of P (v # vs) =
     (case encode_utf8 P v of
        Inl e \<Rightarrow> Inl e
      | Inr b \<Rightarrow>
          (case verse_hashes_of P vs of
             Inl e \<Rightarrow> Inl e
           | Inr hs \<Rightarrow> Inr (sha3 P b # hs)))"

text \<open>
  The body both loops share, written twice in the source (lines 96 to 107 and 155 to
  166): leaf hashes, root, sealing nonce under the default limit, and the entry.
\<close>

definition make_entry :: "prims \<Rightarrow> str \<Rightarrow> str list \<Rightarrow> error + unit_entry" where
  "make_entry P nm verses =
     (case verse_hashes_of P verses of
        Inl e \<Rightarrow> Inl e
      | Inr verse_hashes \<Rightarrow>
          (case merkle_root P verse_hashes of
             Inl e \<Rightarrow> Inl e
           | Inr root \<Rightarrow>
               (case find_nonce_for_mod19 P root default_limit of
                  Inl e \<Rightarrow> Inl e
                | Inr (nonce, sealed) \<Rightarrow>
                    (case int_mod sealed 19 of
                       Inl e \<Rightarrow> Inl e
                     | Inr m \<Rightarrow>
                         Inr \<lparr> name = nm,
                               verse_count = length verses,
                               verse_hashes_hex = map hhex verse_hashes,
                               root_hex = hhex root,
                               nonce_uint64 = nonce,
                               sealed_root_hex = hhex sealed,
                               sealed_root_mod19 = m \<rparr>))))"

definition TANZIL_URL :: str where
  "TANZIL_URL = lit ''https://tanzil.net/pub/download/''"

definition QURAN_FILE :: str where
  "QURAN_FILE = lit ''quran-uthmani.txt''"

definition SEFARIA_TEXTS :: str where
  "SEFARIA_TEXTS = lit ''https://www.sefaria.org/api/texts/{ref}?lang=he&vhe=Tanach%20with%20Nikud%20and%20Cantillation''"

definition quran_profile :: "(str \<times> str) list" where
  "quran_profile =
     [(lit ''tradition'', lit ''QURAN''),
      (lit ''source'', lit ''Tanzil''),
      (lit ''edition'', lit ''Uthmani (UTF-8)''),
      (lit ''url'', TANZIL_URL @ QURAN_FILE)]"

definition torah_profile :: "(str \<times> str) list" where
  "torah_profile =
     [(lit ''tradition'', lit ''TORAH''),
      (lit ''source'', lit ''Sefaria''),
      (lit ''version_hint'', lit ''Hebrew with vowels + cantillation''),
      (lit ''url_template'', SEFARIA_TEXTS)]"

text \<open>
  The Qur'an builder.  \<open>chapters\<close> is a Python dictionary, which keeps its keys in
  insertion order: an association list.  \<open>setdefault_append\<close> is
  \<^verbatim>\<open>chapters.setdefault(sura, []).append(v)\<close>, \<open>parse_lines\<close> the loop of lines 76 to 82
  (\<open>124\<close> is the bar, \<open>58\<close> the colon), \<open>sorted_by_int\<close> is
  \<^verbatim>\<open>sorted(chapters, key=lambda x: int(x))\<close>, a stable sort that first computes every
  key, and \<open>quran_loop\<close> the loop of lines 94 to 107.  The text comes from
  \<^verbatim>\<open>fetch_quran_uthmani\<close>, which reads the cache or the network: its outcome, a text or
  an exception, is the argument of the model.
\<close>

fun setdefault_append :: "(str \<times> str list) list \<Rightarrow> str \<Rightarrow> str \<Rightarrow> (str \<times> str list) list" where
  "setdefault_append [] k v = [(k, [v])]"
| "setdefault_append ((k', vs) # rest) k v =
     (if k' = k then (k', vs @ [v]) # rest else (k', vs) # setdefault_append rest k v)"

fun parse_lines :: "prims \<Rightarrow> str list \<Rightarrow> (str \<times> str list) list \<Rightarrow> (str \<times> str list) list" where
  "parse_lines P [] chapters = chapters"
| "parse_lines P (raw # rest) chapters =
     (let line = strip P raw in
      if line = [] \<or> 124 \<notin> set line then parse_lines P rest chapters
      else
        (let ref = takeWhile (\<lambda>c. c \<noteq> 124) line;
             verse = drop 1 (dropWhile (\<lambda>c. c \<noteq> 124) line);
             sura = takeWhile (\<lambda>c. c \<noteq> 58) ref
         in parse_lines P rest (setdefault_append chapters sura (nfc P verse))))"

fun int_keys :: "prims \<Rightarrow> str list \<Rightarrow> error + (int \<times> str) list" where
  "int_keys P [] = Inr []"
| "int_keys P (x # xs) =
     (case int_of_str P x of
        Inl e \<Rightarrow> Inl e
      | Inr k \<Rightarrow>
          (case int_keys P xs of
             Inl e \<Rightarrow> Inl e
           | Inr ks \<Rightarrow> Inr ((k, x) # ks)))"

definition sorted_by_int :: "prims \<Rightarrow> str list \<Rightarrow> error + str list" where
  "sorted_by_int P xs =
     (case int_keys P xs of
        Inl e \<Rightarrow> Inl e
      | Inr ks \<Rightarrow> Inr (map snd (sort_key fst ks)))"

fun quran_loop ::
  "prims \<Rightarrow> (str \<times> str list) list \<Rightarrow> str list \<Rightarrow> unit_entry list \<Rightarrow> error + unit_entry list" where
  "quran_loop P chapters [] entries = Inr entries"
| "quran_loop P chapters (sura # rest) entries =
     (case map_of chapters sura of
        None \<Rightarrow> Inl KeyError
      | Some verses \<Rightarrow>
          (case make_entry P (lit ''Sura '' @ sura) verses of
             Inl e \<Rightarrow> Inl e
           | Inr entry \<Rightarrow> quran_loop P chapters rest (entries @ [entry])))"

definition build_quran_manifest :: "prims \<Rightarrow> error + str \<Rightarrow> error + manifest" where
  "build_quran_manifest P fetch_quran_uthmani =
     (case fetch_quran_uthmani of
        Inl e \<Rightarrow> Inl e
      | Inr text \<Rightarrow>
          (let chapters = parse_lines P (splitlines P text) [] in
           case sorted_by_int P (map fst chapters) of
             Inl e \<Rightarrow> Inl e
           | Inr order \<Rightarrow>
               (case quran_loop P chapters order [] of
                  Inl e \<Rightarrow> Inl e
                | Inr entries \<Rightarrow> Inr \<lparr> profile = quran_profile, units = entries \<rparr>)))"

definition quran_chapters :: "prims \<Rightarrow> str \<Rightarrow> (str \<times> str list) list" where
  "quran_chapters P text = parse_lines P (splitlines P text) []"

text \<open>
  The Torah builder.  \<^verbatim>\<open>fetch_sefaria_ref\<close> reads the cache or the network and is an
  argument of the model: the verses of a reference, or an exception.  \<^verbatim>\<open>print\<close> appends
  a line to the output, which the loop carries along with the entries; an exception ends
  the loop and keeps what was printed before.
\<close>

definition warning_line :: "str \<Rightarrow> str" where
  "warning_line ref = lit ''WARNING: No verses retrieved for '' @ ref"

fun torah_loop ::
  "prims \<Rightarrow> (str \<Rightarrow> error + str list) \<Rightarrow> str list \<Rightarrow> str list \<times> unit_entry list
     \<Rightarrow> str list \<times> (error + unit_entry list)" where
  "torah_loop P fetch_sefaria_ref [] (out, entries) = (out, Inr entries)"
| "torah_loop P fetch_sefaria_ref (ref # rest) (out, entries) =
     (case fetch_sefaria_ref ref of
        Inl e \<Rightarrow> (out, Inl e)
      | Inr verses \<Rightarrow>
          if verses = [] then
            torah_loop P fetch_sefaria_ref rest (out @ [warning_line ref], entries)
          else
            (case make_entry P ref verses of
               Inl e \<Rightarrow> (out, Inl e)
             | Inr entry \<Rightarrow> torah_loop P fetch_sefaria_ref rest (out, entries @ [entry])))"

definition build_torah_manifest ::
  "prims \<Rightarrow> (str \<Rightarrow> error + str list) \<Rightarrow> str list \<Rightarrow> str list \<times> (error + manifest)" where
  "build_torah_manifest P fetch_sefaria_ref sidrot_list =
     (case torah_loop P fetch_sefaria_ref sidrot_list ([], []) of
        (out, Inl e) \<Rightarrow> (out, Inl e)
      | (out, Inr entries) \<Rightarrow> (out, Inr \<lparr> profile = torah_profile, units = entries \<rparr>))"

text \<open>
  What the claims about the manifests say of one entry and the verses of its unit: the
  count is the number of verses, and the hash at each position is the hexadecimal form of
  the hash of the encoded verse at that position.
\<close>

definition leaf_hex_ok :: "prims \<Rightarrow> unit_entry \<Rightarrow> str list \<Rightarrow> bool" where
  "leaf_hex_ok P e verses \<longleftrightarrow>
     verse_count e = length verses
     \<and> length (verse_hashes_hex e) = length verses
     \<and> (\<forall>i<length verses. \<exists>b. encode_utf8 P (verses ! i) = Inr b
            \<and> verse_hashes_hex e ! i = hhex (sha3 P b))"

text \<open>
  The verses of a chapter as the file gives them: \<open>parsed_line\<close> is what one line
  contributes (nothing, or a chapter number and a normalised verse), and
  \<open>verses_of_sura\<close> collects, in the order of the lines, the verses of the lines that
  carry the chapter number.
\<close>

definition parsed_line :: "prims \<Rightarrow> str \<Rightarrow> (str \<times> str) option" where
  "parsed_line P raw =
     (let line = strip P raw in
      if line = [] \<or> 124 \<notin> set line then None
      else Some (takeWhile (\<lambda>c. c \<noteq> 58) (takeWhile (\<lambda>c. c \<noteq> 124) line),
                 nfc P (drop 1 (dropWhile (\<lambda>c. c \<noteq> 124) line))))"

definition verses_of_sura :: "prims \<Rightarrow> str \<Rightarrow> str \<Rightarrow> str list" where
  "verses_of_sura P body sura =
     map snd (filter (\<lambda>p. fst p = sura) (List.map_filter (parsed_line P) (splitlines P body)))"

section \<open>A concrete instance of the library parameters\<close>

text \<open>
  To run the model on examples the library parameters need values.  \<open>demo_sha3\<close> is
  not SHA3: it returns 32 bytes, 31 zeros and then the last input byte plus one.  The other
  fields agree with the real functions on ASCII text whose only white space is the blank
  and the line feed, and on unsigned decimal numbers.
\<close>

definition demo_sha3 :: "bytes \<Rightarrow> bytes" where
  "demo_sha3 b = replicate 31 0 @ [(if b = [] then 0 else last b) + 1]"

fun demo_lines :: "str \<Rightarrow> str \<Rightarrow> str list" where
  "demo_lines cur [] = (if cur = [] then [] else [cur])"
| "demo_lines cur (c # cs) = (if c = 10 then cur # demo_lines [] cs else demo_lines (cur @ [c]) cs)"

definition demo_int :: "str \<Rightarrow> error + int" where
  "demo_int s =
     (if s \<noteq> [] \<and> list_all (\<lambda>c. 48 \<le> c \<and> c \<le> 57) s
      then Inr (foldl (\<lambda>acc c. acc * 10 + (int c - 48)) 0 s)
      else Inl ValueError)"

definition demo_prims :: prims where
  "demo_prims =
     \<lparr> sha3_256 = demo_sha3,
       normalize_nfc = (\<lambda>s. s),
       encode_utf8 = (\<lambda>s. if list_all (\<lambda>c. c < 128) s then Inr (map of_nat s)
                           else Inl UnicodeEncodeError),
       splitlines = demo_lines [],
       strip = (\<lambda>s. rev (dropWhile (\<lambda>c. c = 32) (rev (dropWhile (\<lambda>c. c = 32) s)))),
       int_of_str = demo_int \<rparr>"

text \<open>
  A reference list with an empty unit in the middle, and a text whose chapters come out
  of order and which has a line without a bar.
\<close>

definition demo_fetch :: "str \<Rightarrow> error + str list" where
  "demo_fetch ref =
     (if ref = lit ''Genesis 1'' then Inr [lit ''ab'', lit ''cd'', lit ''e'']
      else if ref = lit ''Genesis 2'' then Inr []
      else if ref = lit ''Genesis 3'' then Inr [lit ''f'']
      else Inl FetchError)"

definition demo_sidrot :: "str list" where
  "demo_sidrot = [lit ''Genesis 1'', lit ''Genesis 2'', lit ''Genesis 3'']"

definition demo_text :: str where
  "demo_text = lit ''2:1|e'' @ [10] @ lit ''1:1|ab'' @ [10] @ lit ''junk'' @ [10] @ lit ''1:2|cd''"

definition demo_entry :: "str \<Rightarrow> str list \<Rightarrow> bytes list \<Rightarrow> unit_entry" where
  "demo_entry nm verses hs =
     \<lparr> name = nm, verse_count = length verses, verse_hashes_hex = map hhex hs,
       root_hex = hhex (merkle_spec demo_prims hs), nonce_uint64 = 18,
       sealed_root_hex = hhex (replicate 31 0 @ [19]), sealed_root_mod19 = 0 \<rparr>"

definition demo_digest :: "byte \<Rightarrow> bytes" where
  "demo_digest x = replicate 31 0 @ [x]"

definition demo_torah :: manifest where
  "demo_torah =
     \<lparr> profile = torah_profile,
       units = [demo_entry (lit ''Genesis 1'') [lit ''ab'', lit ''cd'', lit ''e'']
                  [demo_digest 99, demo_digest 101, demo_digest 102],
                demo_entry (lit ''Genesis 3'') [lit ''f''] [demo_digest 103]] \<rparr>"

definition demo_quran :: manifest where
  "demo_quran =
     \<lparr> profile = quran_profile,
       units = [demo_entry (lit ''Sura '' @ lit ''1'') [lit ''ab'', lit ''cd'']
                  [demo_digest 99, demo_digest 101],
                demo_entry (lit ''Sura '' @ lit ''2'') [lit ''e''] [demo_digest 102]] \<rparr>"

section \<open>The nonce search\<close>

lemma mod19_ok_iff:
  "mod19_ok P root n \<longleftrightarrow>
     n < 2 ^ 64 \<and> int_from_bytes_big (sha3 P (root @ be_digits 8 n)) mod 19 = 0"
  by (simp add: mod19_ok_def to_bytes_big_def int_mod_def)

lemma find_nonce_from_step_hit:
  "nonce < limit \<Longrightarrow> mod19_ok P root nonce \<Longrightarrow>
   find_nonce_from P root limit nonce = Inr (nonce, sha3 P (root @ be_digits 8 nonce))"
  by (subst find_nonce_from.simps) (simp add: mod19_ok_iff to_bytes_big_def int_mod_def)

lemma find_nonce_from_step_miss:
  "nonce < limit \<Longrightarrow> nonce < 2 ^ 64 \<Longrightarrow> \<not> mod19_ok P root nonce \<Longrightarrow>
   find_nonce_from P root limit nonce = find_nonce_from P root limit (Suc nonce)"
  by (subst find_nonce_from.simps) (simp add: mod19_ok_iff to_bytes_big_def int_mod_def)

lemma find_nonce_from_first:
  "k \<le> n0 \<Longrightarrow> n0 < limit \<Longrightarrow> mod19_ok P root n0 \<Longrightarrow>
   \<exists>m. find_nonce_from P root limit k = Inr (m, sha3 P (root @ be_digits 8 m)) \<and>
       k \<le> m \<and> m \<le> n0 \<and> mod19_ok P root m \<and> (\<forall>j. k \<le> j \<and> j < m \<longrightarrow> \<not> mod19_ok P root j)"
proof (induction "n0 - k" arbitrary: k)
  case 0
  then have "k = n0" by simp
  with 0 show ?case
    by (auto simp: find_nonce_from_step_hit)
next
  case (Suc d)
  show ?case
  proof (cases "mod19_ok P root k")
    case True
    with Suc.prems show ?thesis
      by (auto simp: find_nonce_from_step_hit)
  next
    case False
    from Suc.prems have n0: "n0 < 2 ^ 64" by (simp add: mod19_ok_iff)
    from Suc.hyps(2) Suc.prems have lt: "k < n0" by simp
    then have step: "find_nonce_from P root limit k = find_nonce_from P root limit (Suc k)"
      using False n0 Suc.prems by (intro find_nonce_from_step_miss) auto
    from Suc.hyps(2) have "d = n0 - Suc k" by simp
    from Suc.hyps(1) [OF this] lt Suc.prems
    obtain m where m: "find_nonce_from P root limit (Suc k) = Inr (m, sha3 P (root @ be_digits 8 m))"
      "Suc k \<le> m" "m \<le> n0" "mod19_ok P root m" "\<forall>j. Suc k \<le> j \<and> j < m \<longrightarrow> \<not> mod19_ok P root j"
      by auto
    have "\<forall>j. k \<le> j \<and> j < m \<longrightarrow> \<not> mod19_ok P root j"
    proof (intro allI impI)
      fix j assume "k \<le> j \<and> j < m"
      then show "\<not> mod19_ok P root j"
        using False m(5) by (cases "j = k") auto
    qed
    with m step show ?thesis by auto
  qed
qed

lemma find_nonce_from_none:
  "limit \<le> 2 ^ 64 \<Longrightarrow> (\<forall>j. k \<le> j \<and> j < limit \<longrightarrow> \<not> mod19_ok P root j) \<Longrightarrow>
   find_nonce_from P root limit k = Inl RuntimeError"
proof (induction "limit - k" arbitrary: k)
  case 0
  then show ?case by (subst find_nonce_from.simps) simp
next
  case (Suc d)
  then have "k < limit" "k < 2 ^ 64" "\<not> mod19_ok P root k" by auto
  then have "find_nonce_from P root limit k = find_nonce_from P root limit (Suc k)"
    by (rule find_nonce_from_step_miss)
  moreover have "find_nonce_from P root limit (Suc k) = Inl RuntimeError"
    using Suc by (intro Suc.hyps(1)) auto
  ultimately show ?case by simp
qed

text \<open>The eight bytes written for a nonce are its big-endian encoding.\<close>

lemma length_be_digits: "length (be_digits k n) = k"
  by (induction k arbitrary: n) auto

lemma int_from_bytes_big_snoc:
  "int_from_bytes_big (b @ [x]) = int_from_bytes_big b * 256 + uint x"
  by (simp add: int_from_bytes_big_def)

lemma uint_byte_of_nat: "uint (of_nat (n mod 256) :: byte) = int (n mod 256)"
  by (simp add: uint_nat unat_of_nat)

lemma int_from_bytes_big_be_digits:
  "int_from_bytes_big (be_digits k n) = int (n mod 256 ^ k)"
proof (induction k arbitrary: n)
  case 0
  then show ?case by (simp add: int_from_bytes_big_def)
next
  case (Suc k)
  have "n mod (256 * 256 ^ k) = 256 * (n div 256 mod 256 ^ k) + n mod 256"
    by (rule mod_mult2_eq)
  then show ?case
    using Suc.IH [of "n div 256"]
    by (simp add: int_from_bytes_big_snoc uint_byte_of_nat del: of_nat_mod of_nat_mult)
qed

lemma find_nonce_hit:
  assumes "n0 < 2 ^ 64" and "int n0 < limit"
    and "int_from_bytes_big (sha3 P (root @ be_digits 8 n0)) mod 19 = 0"
  shows "\<exists>n. find_nonce_for_mod19 P root limit = Inr (n, sha3 P (root @ be_digits 8 n))
     \<and> n < 2 ^ 64
     \<and> int_from_bytes_big (sha3 P (root @ be_digits 8 n)) mod 19 = 0
     \<and> n \<le> n0
     \<and> (\<forall>j<n. int_from_bytes_big (sha3 P (root @ be_digits 8 j)) mod 19 \<noteq> 0)"
proof -
  from assms have ok: "mod19_ok P root n0" and lt: "n0 < nat limit"
    by (simp_all add: mod19_ok_iff)
  from find_nonce_from_first [OF _ lt ok, of 0]
  obtain m where m: "find_nonce_from P root (nat limit) 0 = Inr (m, sha3 P (root @ be_digits 8 m))"
    "m \<le> n0" "mod19_ok P root m" "\<forall>j. j < m \<longrightarrow> \<not> mod19_ok P root j"
    by auto
  from m(3) have m64: "m < 2 ^ 64"
    and hit: "int_from_bytes_big (sha3 P (root @ be_digits 8 m)) mod 19 = 0"
    by (simp_all add: mod19_ok_iff)
  have least: "\<forall>j<m. int_from_bytes_big (sha3 P (root @ be_digits 8 j)) mod 19 \<noteq> 0"
  proof (intro allI impI)
    fix j assume "j < m"
    with m(4) m64 have "\<not> mod19_ok P root j" and "j < 2 ^ 64" by auto
    then show "int_from_bytes_big (sha3 P (root @ be_digits 8 j)) mod 19 \<noteq> 0"
      by (simp add: mod19_ok_iff)
  qed
  show ?thesis
    unfolding find_nonce_for_mod19_def
    using m(1,2) m64 hit least by simp
qed

lemma find_nonce_miss:
  assumes "limit \<le> 2 ^ 64"
    and "\<forall>n. int n < limit \<longrightarrow> int_from_bytes_big (sha3 P (root @ be_digits 8 n)) mod 19 \<noteq> 0"
  shows "find_nonce_for_mod19 P root limit = Inl RuntimeError"
proof -
  have nl: "nat limit \<le> 2 ^ 64"
    using assms(1) by (metis nat_le_iff of_nat_numeral of_nat_power)
  have "\<forall>j. 0 \<le> j \<and> j < nat limit \<longrightarrow> \<not> mod19_ok P root j"
    using assms(2) by (auto simp: mod19_ok_iff)
  from find_nonce_from_none [OF nl this] show ?thesis
    by (simp add: find_nonce_for_mod19_def)
qed

lemma nat_below_limit:
  assumes "limit \<le> 2 ^ 64" and "int n < limit"
  shows "n < 2 ^ 64"
proof -
  from assms have "int n < 2 ^ 64" by linarith
  then show ?thesis by (metis of_nat_less_iff of_nat_numeral of_nat_power)
qed

text \<open>
  Claim C1.  Whenever some nonce below the limit has a digest that is a multiple of 19,
  \<open>find_nonce_for_mod19\<close> returns a pair \<open>(n, digest)\<close>: \<open>digest\<close> is the hash of the root
  followed by \<open>n\<close> written as eight big-endian bytes, \<open>digest\<close> read as a big-endian
  unsigned number is congruent to 0 modulo 19, and \<open>n\<close> is the smallest natural number
  with that property, the candidates being tried upwards from 0.
\<close>

theorem find_nonce_for_mod19_least:
  assumes "n0 < 2 ^ 64" and "int n0 < limit"
    and "int_from_bytes_big (sha3 P (root @ be_digits 8 n0)) mod 19 = 0"
  shows "\<exists>n digest. find_nonce_for_mod19 P root limit = Inr (n, digest)
     \<and> to_bytes_big n 8 = Inr (be_digits 8 n)
     \<and> length (be_digits 8 n) = 8 \<and> int_from_bytes_big (be_digits 8 n) = int n
     \<and> digest = sha3 P (root @ be_digits 8 n)
     \<and> int_from_bytes_big digest mod 19 = 0
     \<and> n \<le> n0
     \<and> (\<forall>j<n. int_from_bytes_big (sha3 P (root @ be_digits 8 j)) mod 19 \<noteq> 0)"
proof -
  from find_nonce_hit [OF assms]
  obtain n where n: "find_nonce_for_mod19 P root limit = Inr (n, sha3 P (root @ be_digits 8 n))"
    "n < 2 ^ 64" "int_from_bytes_big (sha3 P (root @ be_digits 8 n)) mod 19 = 0" "n \<le> n0"
    "\<forall>j<n. int_from_bytes_big (sha3 P (root @ be_digits 8 j)) mod 19 \<noteq> 0"
    by (elim exE conjE)
  have enc: "to_bytes_big n 8 = Inr (be_digits 8 n)"
    using n(2) by (simp add: to_bytes_big_def)
  have val: "int_from_bytes_big (be_digits 8 n) = int n"
    using n(2) by (simp add: int_from_bytes_big_be_digits)
  show ?thesis
    using n enc val by (simp add: length_be_digits)
qed

theorem find_nonce_for_mod19_least_witness:
  "(18::nat) < 2 ^ 64 \<and> int 18 < default_limit
   \<and> int_from_bytes_big (sha3 demo_prims (replicate 32 7 @ be_digits 8 18)) mod 19 = 0
   \<and> (\<exists>n digest. find_nonce_for_mod19 demo_prims (replicate 32 7) default_limit = Inr (n, digest)
        \<and> digest = sha3 demo_prims (replicate 32 7 @ be_digits 8 n)
        \<and> int_from_bytes_big digest mod 19 = 0 \<and> n \<le> 18)"
proof -
  have h1: "(18::nat) < 2 ^ 64" by simp
  have h2: "int 18 < default_limit" by (simp add: default_limit_def)
  have h3: "int_from_bytes_big (sha3 demo_prims (replicate 32 7 @ be_digits 8 18)) mod 19 = 0"
    by code_simp
  from find_nonce_for_mod19_least [OF h1 h2 h3]
  obtain n digest where
    r: "find_nonce_for_mod19 demo_prims (replicate 32 7) default_limit = Inr (n, digest)"
      "digest = sha3 demo_prims (replicate 32 7 @ be_digits 8 n)"
      "int_from_bytes_big digest mod 19 = 0" "n \<le> 18"
    by auto
  then have "\<exists>n digest. find_nonce_for_mod19 demo_prims (replicate 32 7) default_limit = Inr (n, digest)
        \<and> digest = sha3 demo_prims (replicate 32 7 @ be_digits 8 n)
        \<and> int_from_bytes_big digest mod 19 = 0 \<and> n \<le> 18"
    by (intro exI [of _ n] exI [of _ digest]) simp
  with h1 h2 h3 show ?thesis by (intro conjI)
qed

text \<open>
  Claim C5.  For a limit of at most \<open>2 ^ 64\<close> (the nonce is an unsigned 64-bit number),
  \<open>find_nonce_for_mod19\<close> fails with the RuntimeError of line 38, the specification's
  ExhaustionError, if and only if no nonce in \<open>[0, limit)\<close> has a digest that is a multiple
  of 19, and it returns a pair if and only if some nonce in that range has one.  In
  particular, with limit 1 and a root whose digest at nonce 0 is not a multiple of 19, it
  raises and returns no pair.
\<close>

theorem find_nonce_for_mod19_exhaustion:
  assumes "limit \<le> 2 ^ 64"
  shows "(find_nonce_for_mod19 P root limit = Inl RuntimeError
            \<longleftrightarrow> (\<forall>n. int n < limit \<longrightarrow> int_from_bytes_big (sha3 P (root @ be_digits 8 n)) mod 19 \<noteq> 0))
     \<and> ((\<exists>n digest. find_nonce_for_mod19 P root limit = Inr (n, digest))
            \<longleftrightarrow> (\<exists>n. int n < limit \<and> int_from_bytes_big (sha3 P (root @ be_digits 8 n)) mod 19 = 0))
     \<and> (int_from_bytes_big (sha3 P (root @ be_digits 8 0)) mod 19 \<noteq> 0
            \<longrightarrow> find_nonce_for_mod19 P root 1 = Inl RuntimeError)"
proof -
  let ?hit = "\<lambda>n. int_from_bytes_big (sha3 P (root @ be_digits 8 n)) mod 19 = 0"
  have fail_iff: "find_nonce_for_mod19 P root limit = Inl RuntimeError
      \<longleftrightarrow> (\<forall>n. int n < limit \<longrightarrow> \<not> ?hit n)"
  proof
    assume fail: "find_nonce_for_mod19 P root limit = Inl RuntimeError"
    show "\<forall>n. int n < limit \<longrightarrow> \<not> ?hit n"
    proof (intro allI impI notI)
      fix n assume n: "int n < limit" and z: "?hit n"
      from find_nonce_hit [OF nat_below_limit [OF assms n] n z]
      obtain m where "find_nonce_for_mod19 P root limit = Inr (m, sha3 P (root @ be_digits 8 m))"
        by (elim exE conjE)
      with fail show False by simp
    qed
  next
    assume "\<forall>n. int n < limit \<longrightarrow> \<not> ?hit n"
    with assms show "find_nonce_for_mod19 P root limit = Inl RuntimeError"
      by (rule find_nonce_miss)
  qed
  have ret_iff: "(\<exists>n digest. find_nonce_for_mod19 P root limit = Inr (n, digest))
      \<longleftrightarrow> (\<exists>n. int n < limit \<and> ?hit n)"
  proof
    assume "\<exists>n digest. find_nonce_for_mod19 P root limit = Inr (n, digest)"
    then have ne: "find_nonce_for_mod19 P root limit \<noteq> Inl RuntimeError" by auto
    show "\<exists>n. int n < limit \<and> ?hit n"
    proof (rule ccontr)
      assume "\<not> (\<exists>n. int n < limit \<and> ?hit n)"
      then have "\<forall>n. int n < limit \<longrightarrow> \<not> ?hit n" by simp
      with assms have "find_nonce_for_mod19 P root limit = Inl RuntimeError"
        by (rule find_nonce_miss)
      with ne show False by simp
    qed
  next
    assume "\<exists>n. int n < limit \<and> ?hit n"
    then obtain n where n: "int n < limit" and z: "?hit n" by (elim exE conjE)
    from find_nonce_hit [OF nat_below_limit [OF assms n] n z]
    obtain m where "find_nonce_for_mod19 P root limit = Inr (m, sha3 P (root @ be_digits 8 m))"
      by (elim exE conjE)
    then show "\<exists>n digest. find_nonce_for_mod19 P root limit = Inr (n, digest)"
      by (intro exI)
  qed
  have one: "\<not> ?hit 0 \<longrightarrow> find_nonce_for_mod19 P root 1 = Inl RuntimeError"
  proof (rule impI)
    assume "\<not> ?hit 0"
    then have none: "\<forall>n. int n < 1 \<longrightarrow> \<not> ?hit n"
      by auto
    have "(1::int) \<le> 2 ^ 64" by simp
    from this none show "find_nonce_for_mod19 P root 1 = Inl RuntimeError"
      by (rule find_nonce_miss)
  qed
  show ?thesis
    by (rule conjI [OF fail_iff conjI [OF ret_iff one]])
qed

theorem find_nonce_for_mod19_exhaustion_witness:
  "(1::int) \<le> 2 ^ 64
   \<and> int_from_bytes_big (sha3 demo_prims (replicate 32 7 @ be_digits 8 0)) mod 19 = 1
   \<and> find_nonce_for_mod19 demo_prims (replicate 32 7) 1 = Inl RuntimeError"
proof -
  have h: "(1::int) \<le> 2 ^ 64" by simp
  have d: "int_from_bytes_big (sha3 demo_prims (replicate 32 7 @ be_digits 8 0)) mod 19 = 1"
    by code_simp
  then have "int_from_bytes_big (sha3 demo_prims (replicate 32 7 @ be_digits 8 0)) mod 19 \<noteq> 0"
    by simp
  with find_nonce_for_mod19_exhaustion [OF h, of demo_prims "replicate 32 7", THEN conjunct2, THEN conjunct2]
  have "find_nonce_for_mod19 demo_prims (replicate 32 7) 1 = Inl RuntimeError"
    by (rule mp)
  with h d show ?thesis by (intro conjI)
qed

section \<open>The Merkle builder\<close>

lemma merkle_while_spec:
  "layer \<noteq> [] \<Longrightarrow> merkle_while P layer = [merkle_spec P layer]"
proof (induction P layer rule: merkle_spec.induct)
  case (1 P)
  then show ?case by simp
next
  case (2 P h)
  show ?case by (subst merkle_while.simps) simp
next
  case (3 P a b rest)
  have "pair_up P (a # b # rest) \<noteq> []" by simp
  from "3.IH" [OF this] show ?case
    by (subst merkle_while.simps) (simp add: next_layer_from_eq)
qed

lemma merkle_root_spec: "merkle_root P leaves = Inr (merkle_spec P leaves)"
  by (cases "leaves = []") (simp_all add: merkle_root_def merkle_while_spec)

text \<open>
  Claim C2.  \<open>merkle_root\<close> never fails, and its result is the one the specification's
  procedure gives: starting from the leaves, each layer is mapped to the next by hashing
  every consecutive pair as \<open>sha3 (left || right)\<close>, an odd final element being paired with
  itself, until one element remains.  For the leaves \<open>[A, B, C]\<close> the root is
  \<open>sha3 (sha3 (A || B) || sha3 (C || C))\<close>.
\<close>

theorem merkle_root_pairwise:
  "merkle_root P leaves = Inr (merkle_spec P leaves)
   \<and> merkle_root P [A, B, C] = Inr (sha3 P (sha3 P (A @ B) @ sha3 P (C @ C)))"
  by (simp add: merkle_root_spec)

theorem merkle_root_pairwise_witness:
  "merkle_root demo_prims [[1], [2], [3]] = Inr (merkle_spec demo_prims [[1], [2], [3]])
   \<and> merkle_root demo_prims [[1], [2], [3]]
       = Inr (sha3 demo_prims (sha3 demo_prims ([1] @ [2]) @ sha3 demo_prims ([3] @ [3])))"
  using merkle_root_pairwise [of demo_prims "[[1], [2], [3]]" "[1]" "[2]" "[3]"] by simp

text \<open>
  Claim C3.  For the empty sequence of leaf digests \<open>merkle_root\<close> returns the hash of
  the empty byte string, as a result and not as an error.
\<close>

theorem merkle_root_empty: "merkle_root P [] = Inr (sha3 P [])"
  by (simp add: merkle_root_def)

theorem merkle_root_empty_witness: "merkle_root demo_prims [] = Inr (sha3 demo_prims [])"
  using merkle_root_empty [of demo_prims] by simp

text \<open>
  Claim C4.  For a list of one leaf digest \<open>h\<close>, \<open>merkle_root\<close> returns \<open>h\<close> itself, not
  the hash of \<open>h || h\<close>: a layer of one element ends the loop at once.
\<close>

theorem merkle_root_single: "merkle_root P [h] = Inr h"
  by (simp add: merkle_root_def merkle_while.simps)

theorem merkle_root_single_witness: "merkle_root demo_prims [[5, 6]] = Inr [5, 6]"
  using merkle_root_single [of demo_prims "[5, 6]"] by simp

section \<open>The Merkle builder and its argument\<close>

lemma next_layer_heap_eq:
  "layer < length h \<Longrightarrow> nxt < length h \<Longrightarrow> nxt \<noteq> layer \<Longrightarrow> n = length (h ! layer) \<Longrightarrow>
   next_layer_heap P layer n nxt i h = h[nxt := h ! nxt @ pair_up P (drop i (h ! layer))]"
proof (induction P layer n nxt i h rule: next_layer_heap.induct)
  case (1 P layer n nxt i h)
  show ?case
  proof (cases "i < n")
    case False
    with "1.prems" show ?thesis
      by (subst next_layer_heap.simps) simp
  next
    case True
    define x where "x = sha3 P (h ! layer ! i @ (if i + 1 < length (h ! layer) then h ! layer ! (i + 1) else h ! layer ! i))"
    define h' where "h' = h[nxt := h ! nxt @ [x]]"
    have same: "h' ! layer = h ! layer" and len: "length h' = length h"
      and nx: "h' ! nxt = h ! nxt @ [x]"
      using "1.prems" by (simp_all add: h'_def)
    have step: "next_layer_heap P layer n nxt i h = next_layer_heap P layer n nxt (i + 2) h'"
      using True by (subst next_layer_heap.simps) (simp add: Let_def h'_def x_def)
    have IH: "next_layer_heap P layer n nxt (i + 2) h'
        = h'[nxt := h' ! nxt @ pair_up P (drop (i + 2) (h' ! layer))]"
      using "1.IH" [OF True refl refl, folded x_def, folded h'_def] "1.prems" same len
      by simp
    have d: "pair_up P (drop i (h ! layer)) = x # pair_up P (drop (i + 2) (h ! layer))"
    proof (cases "i + 1 < length (h ! layer)")
      case True
      then have "drop i (h ! layer) = h ! layer ! i # h ! layer ! (i + 1) # drop (i + 2) (h ! layer)"
        by (metis Cons_nth_drop_Suc Suc_eq_plus1 add_2_eq_Suc' add_lessD1)
      with True show ?thesis by (simp add: x_def)
    next
      case False
      with True "1.prems" have "drop i (h ! layer) = [h ! layer ! i]" "drop (i + 2) (h ! layer) = []"
        by (simp_all add: Cons_nth_drop_Suc [symmetric])
      with False show ?thesis by (simp add: x_def)
    qed
    show ?thesis
      unfolding step IH same nx d by (simp add: h'_def)
  qed
qed

lemma merkle_while_step:
  "length layer > 1 \<Longrightarrow> merkle_while P layer = merkle_while P (pair_up P layer)"
  by (subst merkle_while.simps) (simp add: next_layer_from_eq)

lemma merkle_while_stop:
  "\<not> length layer > 1 \<Longrightarrow> merkle_while P layer = layer"
  by (subst merkle_while.simps) simp

lemma merkle_while_heap_eq:
  "layer < length h \<Longrightarrow>
   \<exists>ext. merkle_while_heap P layer h
     = Some (case merkle_while P (h ! layer) of [] \<Rightarrow> Inl IndexError | r # _ \<Rightarrow> Inr r, h @ ext)"
proof (induction "length (h ! layer)" arbitrary: h layer rule: less_induct)
  case less
  show ?case
  proof (cases "length (h ! layer) > 1")
    case False
    then have "merkle_while_heap P layer h
      = Some (case merkle_while P (h ! layer) of [] \<Rightarrow> Inl IndexError | r # _ \<Rightarrow> Inr r, h @ [])"
      by (subst merkle_while_heap.simps) (simp add: merkle_while_stop)
    then show ?thesis by (rule exI)
  next
    case True
    define L where "L = pair_up P (h ! layer)"
    define h2 where "h2 = h @ [L]"
    have fill: "next_layer_heap P layer (length ((h @ [[]]) ! layer)) (length h) 0 (h @ [[]]) = h2"
      using less.prems
      by (subst next_layer_heap_eq) (simp_all add: nth_append h2_def L_def)
    have step: "merkle_while_heap P layer h = merkle_while_heap P (length h) h2"
      using True fill by (subst merkle_while_heap.simps) (simp add: new_list_def)
    have shorter: "length (h2 ! length h) < length (h ! layer)"
      using True by (simp add: h2_def L_def length_pair_up)
    have "length h < length h2" by (simp add: h2_def)
    from less.hyps [OF shorter this]
    obtain ext where "merkle_while_heap P (length h) h2
      = Some (case merkle_while P (h2 ! length h) of [] \<Rightarrow> Inl IndexError | r # _ \<Rightarrow> Inr r, h2 @ ext)"
      by (elim exE)
    then have "merkle_while_heap P layer h
      = Some (case merkle_while P (h ! layer) of [] \<Rightarrow> Inl IndexError | r # _ \<Rightarrow> Inr r, h @ ([L] @ ext))"
      using True by (simp add: step h2_def L_def merkle_while_step)
    then show ?thesis by (rule exI)
  qed
qed

text \<open>
  Claim C10.  \<open>merkle_root\<close> leaves its input list unchanged.  Called with the address of
  any list object of the heap, it returns (the result is the one of \<open>merkle_root\<close> on the
  object's contents); afterwards the argument holds the same elements in the same order
  as before, and so does every other object that existed before the call: the builder
  only creates new objects, the copy \<^verbatim>\<open>leaves[:]\<close> and the layers.
\<close>

theorem merkle_root_leaves_unchanged:
  assumes "leaves < length h"
  shows "\<exists>h'. merkle_root_heap P leaves h = Some (merkle_root P (h ! leaves), h')
     \<and> h' ! leaves = h ! leaves
     \<and> take (length h) h' = h"
proof (cases "h ! leaves = []")
  case True
  then show ?thesis by (simp add: merkle_root_heap_def merkle_root_def)
next
  case False
  have "length h < length (h @ [h ! leaves])" by simp
  from merkle_while_heap_eq [OF this, of P]
  obtain ext where "merkle_while_heap P (length h) (h @ [h ! leaves])
     = Some (case merkle_while P (h ! leaves) of [] \<Rightarrow> Inl IndexError | r # _ \<Rightarrow> Inr r,
             (h @ [h ! leaves]) @ ext)"
    by auto
  with False assms show ?thesis
    by (simp add: merkle_root_heap_def merkle_root_def new_list_def nth_append)
qed

theorem merkle_root_leaves_unchanged_witness:
  "(0::nat) < length [[[1], [2], [3 :: byte]]]
   \<and> (\<exists>h'. merkle_root_heap demo_prims 0 [[[1], [2], [3]]]
              = Some (merkle_root demo_prims ([[[1], [2], [3]]] ! 0), h')
          \<and> h' ! 0 = [[1], [2], [3]])"
proof -
  have h: "(0::nat) < length [[[1], [2], [3 :: byte]]]" by simp
  from merkle_root_leaves_unchanged [OF h, of demo_prims]
  obtain h' where "merkle_root_heap demo_prims 0 [[[1], [2], [3]]]
              = Some (merkle_root demo_prims ([[[1], [2], [3]]] ! 0), h')"
    and "h' ! 0 = [[1], [2], [3]]"
    by auto
  then have "\<exists>h'. merkle_root_heap demo_prims 0 [[[1], [2], [3]]]
              = Some (merkle_root demo_prims ([[[1], [2], [3]]] ! 0), h')
          \<and> h' ! 0 = [[1], [2], [3]]"
    by (intro exI [of _ h']) simp
  with h show ?thesis by (intro conjI)
qed

section \<open>The manifest builders\<close>

subsection \<open>What a returned search and a built entry satisfy\<close>

lemma find_nonce_from_step_overflow:
  "nonce < limit \<Longrightarrow> \<not> nonce < 2 ^ 64 \<Longrightarrow>
   find_nonce_from P root limit nonce = Inl OverflowError"
  by (subst find_nonce_from.simps) (simp add: to_bytes_big_def)

lemma find_nonce_from_step_end:
  "\<not> nonce < limit \<Longrightarrow> find_nonce_from P root limit nonce = Inl RuntimeError"
  by (subst find_nonce_from.simps) simp

lemma find_nonce_from_Inr:
  "find_nonce_from P root limit k = Inr (n, d) \<Longrightarrow>
   d = sha3 P (root @ be_digits 8 n) \<and> int_from_bytes_big d mod 19 = 0"
proof (induction "limit - k" arbitrary: k)
  case 0
  then have "\<not> k < limit" by simp
  from find_nonce_from_step_end [OF this] 0 show ?case by simp
next
  case (Suc x)
  then have lt: "k < limit" by simp
  show ?case
  proof (cases "k < 2 ^ 64")
    case False
    from find_nonce_from_step_overflow [OF lt False] Suc.prems show ?thesis by simp
  next
    case True
    show ?thesis
    proof (cases "mod19_ok P root k")
      case True
      from find_nonce_from_step_hit [OF lt True] Suc.prems True show ?thesis
        by (simp add: mod19_ok_iff)
    next
      case False
      from find_nonce_from_step_miss [OF lt True False] Suc.prems
      have "find_nonce_from P root limit (Suc k) = Inr (n, d)" by simp
      moreover from Suc.hyps(2) have "x = limit - Suc k" by simp
      ultimately show ?thesis by (intro Suc.hyps(1))
    qed
  qed
qed

lemma find_nonce_for_mod19_Inr:
  "find_nonce_for_mod19 P root limit = Inr (n, d) \<Longrightarrow>
   d = sha3 P (root @ be_digits 8 n) \<and> int_from_bytes_big d mod 19 = 0"
  unfolding find_nonce_for_mod19_def by (rule find_nonce_from_Inr)

lemma verse_hashes_of_Inr:
  "verse_hashes_of P vs = Inr hs \<Longrightarrow>
   length hs = length vs \<and>
   (\<forall>i<length vs. \<exists>b. encode_utf8 P (vs ! i) = Inr b \<and> hs ! i = sha3 P b)"
proof (induction vs arbitrary: hs)
  case Nil
  then show ?case by simp
next
  case (Cons v vs)
  from Cons.prems obtain b hs' where b: "encode_utf8 P v = Inr b"
    and hs': "verse_hashes_of P vs = Inr hs'" and hs: "hs = sha3 P b # hs'"
    by (auto split: sum.splits)
  from Cons.IH [OF hs'] have len: "length hs' = length vs"
    and nth: "\<forall>i<length vs. \<exists>b. encode_utf8 P (vs ! i) = Inr b \<and> hs' ! i = sha3 P b"
    by simp_all
  have "\<exists>c. encode_utf8 P ((v # vs) ! i) = Inr c \<and> hs ! i = sha3 P c" if "i < length (v # vs)" for i
  proof (cases i)
    case 0
    with b hs show ?thesis by simp
  next
    case (Suc j)
    with that nth hs show ?thesis by simp
  qed
  with len hs show ?case by simp
qed

lemma make_entry_Inr:
  assumes "make_entry P nm verses = Inr e"
  shows "\<exists>hs root sealed.
     verse_hashes_of P verses = Inr hs \<and> merkle_root P hs = Inr root
     \<and> find_nonce_for_mod19 P root default_limit = Inr (nonce_uint64 e, sealed)
     \<and> name e = nm \<and> verse_count e = length verses
     \<and> verse_hashes_hex e = map hhex hs \<and> root_hex e = hhex root
     \<and> sealed_root_hex e = hhex sealed \<and> sealed_root_mod19 e = int_from_bytes_big sealed mod 19
     \<and> int_from_bytes_big sealed mod 19 = 0"
proof -
  from assms obtain hs where hs: "verse_hashes_of P verses = Inr hs"
    by (auto simp: make_entry_def split: sum.splits)
  from assms hs obtain root where root: "merkle_root P hs = Inr root"
    by (auto simp: make_entry_def split: sum.splits)
  from assms hs root obtain nonce sealed
    where seal: "find_nonce_for_mod19 P root default_limit = Inr (nonce, sealed)"
    by (auto simp: make_entry_def split: sum.splits)
  from find_nonce_for_mod19_Inr [OF seal]
  have z: "int_from_bytes_big sealed mod 19 = 0" by (rule conjunct2)
  from assms hs root seal z
  have e: "e = \<lparr> name = nm, verse_count = length verses, verse_hashes_hex = map hhex hs,
      root_hex = hhex root, nonce_uint64 = nonce, sealed_root_hex = hhex sealed,
      sealed_root_mod19 = int_from_bytes_big sealed mod 19 \<rparr>"
    by (simp add: make_entry_def int_mod_def)
  show ?thesis
    using hs root seal z by (simp add: e)
qed

lemma torah_loop_Inr:
  "torah_loop P f refs (out, es) = (out', Inr es') \<Longrightarrow>
   \<exists>new. es' = es @ new
     \<and> list_all2 (\<lambda>e ref. \<exists>verses. f ref = Inr verses \<and> verses \<noteq> [] \<and> make_entry P ref verses = Inr e)
         new (filter (\<lambda>r. f r \<noteq> Inr []) refs)
     \<and> out' = out @ map warning_line (filter (\<lambda>r. f r = Inr []) refs)"
proof (induction refs arbitrary: out es)
  case Nil
  then show ?case by simp
next
  case (Cons ref refs)
  from Cons.prems obtain verses where v: "f ref = Inr verses"
    by (auto split: sum.splits)
  show ?case
  proof (cases "verses = []")
    case True
    with Cons.prems v have "torah_loop P f refs (out @ [warning_line ref], es) = (out', Inr es')"
      by simp
    from Cons.IH [OF this] v True show ?thesis by auto
  next
    case False
    with Cons.prems v obtain e where e: "make_entry P ref verses = Inr e"
      and rest: "torah_loop P f refs (out, es @ [e]) = (out', Inr es')"
      by (auto split: sum.splits)
    from Cons.IH [OF rest] obtain new where new: "es' = (es @ [e]) @ new"
      "list_all2 (\<lambda>e ref. \<exists>verses. f ref = Inr verses \<and> verses \<noteq> [] \<and> make_entry P ref verses = Inr e)
         new (filter (\<lambda>r. f r \<noteq> Inr []) refs)"
      "out' = out @ map warning_line (filter (\<lambda>r. f r = Inr []) refs)"
      by auto
    show ?thesis
      using new v False e by (intro exI [of _ "e # new"]) simp
  qed
qed

lemma quran_loop_Inr:
  "quran_loop P chapters order es = Inr es' \<Longrightarrow>
   \<exists>new. es' = es @ new
     \<and> list_all2 (\<lambda>e sura. \<exists>verses. map_of chapters sura = Some verses
            \<and> make_entry P (lit ''Sura '' @ sura) verses = Inr e) new order"
proof (induction order arbitrary: es)
  case Nil
  then show ?case by simp
next
  case (Cons sura order)
  from Cons.prems obtain verses e where v: "map_of chapters sura = Some verses"
    and e: "make_entry P (lit ''Sura '' @ sura) verses = Inr e"
    and rest: "quran_loop P chapters order (es @ [e]) = Inr es'"
    by (auto split: option.splits sum.splits)
  from Cons.IH [OF rest] obtain new where new: "es' = (es @ [e]) @ new"
    "list_all2 (\<lambda>e sura. \<exists>verses. map_of chapters sura = Some verses
            \<and> make_entry P (lit ''Sura '' @ sura) verses = Inr e) new order"
    by auto
  show ?case
    using new v e by (intro exI [of _ "e # new"]) simp
qed

lemma build_torah_Inr:
  assumes "build_torah_manifest P f refs = (out, Inr m)"
  shows "list_all2 (\<lambda>e ref. \<exists>verses. f ref = Inr verses \<and> verses \<noteq> [] \<and> make_entry P ref verses = Inr e)
           (units m) (filter (\<lambda>r. f r \<noteq> Inr []) refs)
     \<and> out = map warning_line (filter (\<lambda>r. f r = Inr []) refs)"
proof -
  from assms obtain es where loop: "torah_loop P f refs ([], []) = (out, Inr es)"
    and m: "m = \<lparr> profile = torah_profile, units = es \<rparr>"
    by (auto simp: build_torah_manifest_def split: prod.splits sum.splits)
  from torah_loop_Inr [OF loop] m show ?thesis by auto
qed

lemma build_quran_Inr:
  assumes "build_quran_manifest P fetched = Inr m"
  shows "\<exists>text order. fetched = Inr text
     \<and> sorted_by_int P (map fst (quran_chapters P text)) = Inr order
     \<and> list_all2 (\<lambda>e sura. \<exists>verses. map_of (quran_chapters P text) sura = Some verses
            \<and> make_entry P (lit ''Sura '' @ sura) verses = Inr e) (units m) order"
proof -
  from assms obtain body where t: "fetched = Inr body"
    by (auto simp: build_quran_manifest_def split: sum.splits)
  from assms t obtain order where srt: "sorted_by_int P (map fst (quran_chapters P body)) = Inr order"
    by (auto simp: build_quran_manifest_def quran_chapters_def Let_def split: sum.splits)
  from assms t srt obtain es where loop: "quran_loop P (quran_chapters P body) order [] = Inr es"
    and m: "m = \<lparr> profile = quran_profile, units = es \<rparr>"
    by (auto simp: build_quran_manifest_def quran_chapters_def Let_def split: sum.splits)
  from quran_loop_Inr [OF loop] m t srt show ?thesis by auto
qed

lemma list_all2_left_set:
  "list_all2 R xs ys \<Longrightarrow> x \<in> set xs \<Longrightarrow> \<exists>y\<in>set ys. R x y"
  by (induction xs ys rule: list_all2_induct) auto

lemma make_entry_sealed:
  assumes "make_entry P nm verses = Inr e"
  shows "sealed_root_mod19 e = 0
     \<and> (\<exists>sealed. sealed_root_hex e = hhex sealed \<and> int_from_bytes_big sealed mod 19 = 0)"
  using make_entry_Inr [OF assms] by auto

lemma list_all2_map_name:
  "list_all2 (\<lambda>e x. \<exists>verses. Q x verses \<and> make_entry P (g x) verses = Inr e) es xs \<Longrightarrow>
   map name es = map g xs"
proof (induction es xs rule: list_all2_induct)
  case Nil
  then show ?case by simp
next
  case (Cons e es x xs)
  from Cons.hyps(1) obtain verses where "make_entry P (g x) verses = Inr e" by auto
  from make_entry_Inr [OF this] have "name e = g x" by auto
  with Cons.IH show ?case by simp
qed

lemma int_keys_Inr: "int_keys P xs = Inr ks \<Longrightarrow> map snd ks = xs"
  by (induction xs arbitrary: ks) (auto split: sum.splits)

lemma torah_names:
  assumes "build_torah_manifest P f refs = (out, Inr m)"
  shows "map name (units m) = filter (\<lambda>r. f r \<noteq> Inr []) refs"
proof -
  from build_torah_Inr [OF assms]
  have "list_all2 (\<lambda>e ref. \<exists>verses. (f ref = Inr verses \<and> verses \<noteq> []) \<and> make_entry P ((\<lambda>r. r) ref) verses = Inr e)
           (units m) (filter (\<lambda>r. f r \<noteq> Inr []) refs)"
    by (simp add: conj_assoc)
  from list_all2_map_name [OF this] show ?thesis by simp
qed

lemma quran_names:
  assumes "build_quran_manifest P (Inr text) = Inr m"
  shows "\<exists>ks. int_keys P (map fst (quran_chapters P text)) = Inr ks
     \<and> map snd ks = map fst (quran_chapters P text)
     \<and> map name (units m) = map (\<lambda>k. lit ''Sura '' @ snd k) (sort_key fst ks)"
proof -
  from build_quran_Inr [OF assms] obtain order where
    srt: "sorted_by_int P (map fst (quran_chapters P text)) = Inr order"
    and l: "list_all2 (\<lambda>e sura. \<exists>verses. map_of (quran_chapters P text) sura = Some verses
            \<and> make_entry P ((\<lambda>s. lit ''Sura '' @ s) sura) verses = Inr e) (units m) order"
    by auto
  from srt obtain ks where ks: "int_keys P (map fst (quran_chapters P text)) = Inr ks"
    and order: "order = map snd (sort_key fst ks)"
    by (auto simp: sorted_by_int_def split: sum.splits)
  from list_all2_map_name [OF l] order
  have "map name (units m) = map (\<lambda>k. lit ''Sura '' @ snd k) (sort_key fst ks)"
    by (simp add: comp_def)
  with ks int_keys_Inr [OF ks] show ?thesis by auto
qed

lemma make_entry_leaf:
  assumes "make_entry P nm verses = Inr e"
  shows "leaf_hex_ok P e verses"
proof -
  from make_entry_Inr [OF assms] obtain hs where hs: "verse_hashes_of P verses = Inr hs"
    and vc: "verse_count e = length verses" and hx: "verse_hashes_hex e = map hhex hs"
    by auto
  from verse_hashes_of_Inr [OF hs] have len: "length hs = length verses"
    and nth: "\<forall>i<length verses. \<exists>b. encode_utf8 P (verses ! i) = Inr b \<and> hs ! i = sha3 P b"
    by simp_all
  have "\<exists>b. encode_utf8 P (verses ! i) = Inr b \<and> verse_hashes_hex e ! i = hhex (sha3 P b)"
    if "i < length verses" for i
    using that nth len hx by auto
  with vc len hx show ?thesis by (simp add: leaf_hex_ok_def)
qed

lemma map_of_setdefault_append:
  "map_of (setdefault_append ch k v) k' =
     (if k' = k then Some ((case map_of ch k of None \<Rightarrow> [] | Some vs \<Rightarrow> vs) @ [v])
      else map_of ch k')"
  by (induction ch k v rule: setdefault_append.induct) auto

lemma map_of_fold_setdefault:
  "map_of (foldl (\<lambda>ch p. setdefault_append ch (fst p) (snd p)) ch ps) k =
     (case map_of ch k of
        None \<Rightarrow> (if filter (\<lambda>p. fst p = k) ps = [] then None
                  else Some (map snd (filter (\<lambda>p. fst p = k) ps)))
      | Some vs \<Rightarrow> Some (vs @ map snd (filter (\<lambda>p. fst p = k) ps)))"
proof (induction ps arbitrary: ch)
  case Nil
  then show ?case by (simp split: option.splits)
next
  case (Cons p ps)
  show ?case
    by (simp add: Cons.IH map_of_setdefault_append split: option.splits)
qed

lemma parse_lines_fold:
  "parse_lines P lines ch =
     foldl (\<lambda>ch p. setdefault_append ch (fst p) (snd p)) ch (List.map_filter (parsed_line P) lines)"
proof (induction lines arbitrary: ch)
  case Nil
  then show ?case by (simp add: List.map_filter_simps)
next
  case (Cons raw lines)
  show ?case
    by (simp add: Cons.IH List.map_filter_simps parsed_line_def Let_def)
qed

lemma quran_chapters_lookup:
  "map_of (quran_chapters P body) sura = Some verses \<Longrightarrow> verses = verses_of_sura P body sura"
  by (auto simp: quran_chapters_def parse_lines_fold map_of_fold_setdefault verses_of_sura_def
      split: if_splits)

lemma hex_digit_lower: "d < 16 \<Longrightarrow> hex_digit d \<in> set (lit ''0123456789abcdef'')"
proof -
  assume "d < 16"
  then have "d < length ''0123456789abcdef''" by simp
  then have "''0123456789abcdef'' ! d \<in> set ''0123456789abcdef''" by (rule nth_mem)
  then show ?thesis unfolding hex_digit_def lit_def set_map by (rule imageI)
qed

lemma hhex_lowercase:
  "set (hhex d) \<subseteq> set (lit ''0123456789abcdef'') \<and> length (hhex d) = 2 * length d"
proof (induction d)
  case Nil
  then show ?case by (simp add: hhex_def)
next
  case (Cons w d)
  have "unat w div 16 < 16"
    using unsigned_less [of w, where 'a = nat] by simp
  then have "hex_digit (unat w div 16) \<in> set (lit ''0123456789abcdef'')"
    and "hex_digit (unat w mod 16) \<in> set (lit ''0123456789abcdef'')"
    by (simp_all add: hex_digit_lower)
  with Cons show ?case by (simp add: hhex_def hex_byte_def)
qed

lemma torah_loop_out:
  "torah_loop P f refs (out, es) =
     (out @ fst (torah_loop P f refs ([], es)), snd (torah_loop P f refs ([], es)))"
proof (induction refs arbitrary: out es)
  case Nil
  then show ?case by simp
next
  case (Cons ref refs)
  show ?case
  proof (cases "f ref")
    case (Inl e)
    then show ?thesis by simp
  next
    case (Inr verses)
    note fetched = Inr
    show ?thesis
    proof (cases "verses = []")
      case True
      with fetched Cons.IH [of "out @ [warning_line ref]" es] Cons.IH [of "[warning_line ref]" es]
      show ?thesis by simp
    next
      case False
      note nonempty = False
      show ?thesis
      proof (cases "make_entry P ref verses")
        case (Inl e)
        with fetched nonempty show ?thesis by simp
      next
        case (Inr e)
        have "torah_loop P f refs (out, es @ [e]) =
            (out @ fst (torah_loop P f refs ([], es @ [e])), snd (torah_loop P f refs ([], es @ [e])))"
          by (rule Cons.IH)
        with fetched nonempty Inr show ?thesis by simp
      qed
    qed
  qed
qed

lemma torah_loop_append:
  "torah_loop P f (xs @ ys) (out, es) =
     (case torah_loop P f xs (out, es) of
        (out', Inl e) \<Rightarrow> (out', Inl e)
      | (out', Inr es') \<Rightarrow> torah_loop P f ys (out', es'))"
  by (induction xs arbitrary: out es) (auto split: sum.splits)

lemma build_torah_snd:
  "snd (build_torah_manifest P f refs) =
     (case snd (torah_loop P f refs ([], [])) of
        Inl e \<Rightarrow> Inl e
      | Inr es \<Rightarrow> Inr \<lparr> profile = torah_profile, units = es \<rparr>)"
  by (simp add: build_torah_manifest_def split: prod.splits sum.splits)

subsection \<open>The builders on the concrete instance\<close>

lemma int_from_bytes_big_zeros:
  "int_from_bytes_big (replicate k 0 @ b) = int_from_bytes_big b"
proof -
  have "foldl (\<lambda>acc x. acc * 256 + uint x) 0 (replicate k (0 :: byte)) = 0"
    by (induction k) simp_all
  then show ?thesis by (simp add: int_from_bytes_big_def)
qed

lemma int_from_bytes_big_zeros_one:
  "int_from_bytes_big (replicate k 0 @ [x]) = uint x"
proof -
  have "int_from_bytes_big [x] = uint x" by (simp add: int_from_bytes_big_def)
  then show ?thesis by (simp only: int_from_bytes_big_zeros)
qed

lemma demo_sha3_nonce:
  "sha3 demo_prims (root @ be_digits 8 n) = replicate 31 0 @ [of_nat (n mod 256) + 1]"
proof -
  have "be_digits 8 n = be_digits 7 (n div 256) @ [of_nat (n mod 256)]"
    using be_digits.simps(2) [of 7 n] by simp
  then show ?thesis
    by (simp add: sha3_def demo_prims_def demo_sha3_def)
qed

lemma demo_digest_value:
  assumes "n \<le> 18"
  shows "int_from_bytes_big (sha3 demo_prims (root @ be_digits 8 n)) = int n + 1"
proof -
  from assms have "unat (of_nat n + 1 :: byte) = n + 1"
    by (simp add: unat_word_ariths unat_of_nat)
  then have "uint (of_nat n + 1 :: byte) = int n + 1"
    by (simp add: uint_nat)
  with assms show ?thesis
    by (simp add: demo_sha3_nonce int_from_bytes_big_zeros_one)
qed

lemma demo_seal:
  "find_nonce_for_mod19 demo_prims root default_limit = Inr (18, replicate 31 0 @ [19])"
proof -
  have h1: "(18::nat) < 2 ^ 64" by simp
  have h2: "int 18 < default_limit" by (simp add: default_limit_def)
  have h3: "int_from_bytes_big (sha3 demo_prims (root @ be_digits 8 18)) mod 19 = 0"
    by (simp add: demo_digest_value)
  from find_nonce_hit [OF h1 h2 h3]
  obtain n where r: "find_nonce_for_mod19 demo_prims root default_limit
        = Inr (n, sha3 demo_prims (root @ be_digits 8 n))"
    and z: "int_from_bytes_big (sha3 demo_prims (root @ be_digits 8 n)) mod 19 = 0"
    and le: "n \<le> 18"
    by (elim exE conjE)
  from z le have "(int n + 1) mod 19 = 0" by (simp add: demo_digest_value)
  with le have "n = 18" by presburger
  with r show ?thesis by (simp add: demo_sha3_nonce)
qed

lemma demo_make_entry:
  assumes "verse_hashes_of demo_prims verses = Inr hs"
  shows "make_entry demo_prims nm verses = Inr (demo_entry nm verses hs)"
proof -
  have "int_from_bytes_big (replicate 31 0 @ [19 :: byte]) mod 19 = 0"
    by (simp add: int_from_bytes_big_zeros_one)
  then show ?thesis
    by (simp add: make_entry_def assms merkle_root_spec demo_seal int_mod_def demo_entry_def)
qed

lemma demo_hashes_1:
  "verse_hashes_of demo_prims [lit ''ab'', lit ''cd'', lit ''e'']
     = Inr [demo_digest 99, demo_digest 101, demo_digest 102]"
  by code_simp

lemma demo_hashes_3: "verse_hashes_of demo_prims [lit ''f''] = Inr [demo_digest 103]"
  by code_simp

lemma demo_hashes_q1: "verse_hashes_of demo_prims [lit ''ab'', lit ''cd''] = Inr [demo_digest 99, demo_digest 101]"
  by code_simp

lemma demo_hashes_q2: "verse_hashes_of demo_prims [lit ''e''] = Inr [demo_digest 102]"
  by code_simp

lemma demo_fetch_1: "demo_fetch (lit ''Genesis 1'') = Inr [lit ''ab'', lit ''cd'', lit ''e'']"
  by code_simp

lemma demo_fetch_2: "demo_fetch (lit ''Genesis 2'') = Inr []"
  by code_simp

lemma demo_fetch_3: "demo_fetch (lit ''Genesis 3'') = Inr [lit ''f'']"
  by code_simp

lemma demo_torah_run:
  "build_torah_manifest demo_prims demo_fetch demo_sidrot =
     ([warning_line (lit ''Genesis 2'')],
      Inr \<lparr> profile = torah_profile,
            units = [demo_entry (lit ''Genesis 1'') [lit ''ab'', lit ''cd'', lit ''e'']
                       [demo_digest 99, demo_digest 101, demo_digest 102],
                     demo_entry (lit ''Genesis 3'') [lit ''f''] [demo_digest 103]] \<rparr>)"
  by (simp add: build_torah_manifest_def demo_sidrot_def demo_fetch_1 demo_fetch_2 demo_fetch_3
      demo_make_entry [OF demo_hashes_1] demo_make_entry [OF demo_hashes_3])

lemma demo_chapters:
  "quran_chapters demo_prims demo_text = [(lit ''2'', [lit ''e'']), (lit ''1'', [lit ''ab'', lit ''cd''])]"
  by code_simp

lemma demo_order:
  "sorted_by_int demo_prims [lit ''2'', lit ''1''] = Inr [lit ''1'', lit ''2'']"
  by code_simp

lemma demo_quran_run:
  "build_quran_manifest demo_prims (Inr demo_text) =
     Inr \<lparr> profile = quran_profile,
           units = [demo_entry (lit ''Sura '' @ lit ''1'') [lit ''ab'', lit ''cd'']
                      [demo_digest 99, demo_digest 101],
                    demo_entry (lit ''Sura '' @ lit ''2'') [lit ''e''] [demo_digest 102]] \<rparr>"
proof -
  have l1: "map_of [(lit ''2'', [lit ''e'']), (lit ''1'', [lit ''ab'', lit ''cd''])] (lit ''1'')
      = Some [lit ''ab'', lit ''cd'']"
    by code_simp
  have l2: "map_of [(lit ''2'', [lit ''e'']), (lit ''1'', [lit ''ab'', lit ''cd''])] (lit ''2'')
      = Some [lit ''e'']"
    by code_simp
  have ch: "parse_lines demo_prims (splitlines demo_prims demo_text) []
      = [(lit ''2'', [lit ''e'']), (lit ''1'', [lit ''ab'', lit ''cd''])]"
    using demo_chapters by (simp add: quran_chapters_def)
  show ?thesis
    unfolding build_quran_manifest_def sum.case ch Let_def
    by (simp add: demo_order l1 l2 demo_make_entry [OF demo_hashes_q1] demo_make_entry [OF demo_hashes_q2]
        del: map_of.simps)
qed

lemma demo_torah_result:
  "build_torah_manifest demo_prims demo_fetch demo_sidrot
     = ([warning_line (lit ''Genesis 2'')], Inr demo_torah)"
  by (simp add: demo_torah_run demo_torah_def)

lemma demo_quran_result:
  "build_quran_manifest demo_prims (Inr demo_text) = Inr demo_quran"
  by (simp add: demo_quran_run demo_quran_def)

lemma demo_nonempty_refs:
  "filter (\<lambda>ref. demo_fetch ref \<noteq> Inr []) demo_sidrot = [lit ''Genesis 1'', lit ''Genesis 3'']"
  by (simp add: demo_sidrot_def demo_fetch_1 demo_fetch_2 demo_fetch_3)

subsection \<open>The claims about the manifests\<close>

text \<open>
  Claim C6.  In every entry of a manifest that either builder returns, the field
  \<open>sealed_root_mod19\<close> is 0, and \<open>sealed_root_hex\<close> is the hexadecimal form of a digest
  that, read as a big-endian number, is congruent to 0 modulo 19.
\<close>

theorem sealed_root_mod19_is_zero:
  "(build_torah_manifest P fetch_sefaria_ref sidrot_list = (out, Inr m) \<longrightarrow>
      (\<forall>e\<in>set (units m). sealed_root_mod19 e = 0
         \<and> (\<exists>sealed. sealed_root_hex e = hhex sealed \<and> int_from_bytes_big sealed mod 19 = 0)))
   \<and> (build_quran_manifest P fetch_quran_uthmani = Inr m' \<longrightarrow>
      (\<forall>e\<in>set (units m'). sealed_root_mod19 e = 0
         \<and> (\<exists>sealed. sealed_root_hex e = hhex sealed \<and> int_from_bytes_big sealed mod 19 = 0)))"
proof (rule conjI; intro impI ballI)
  fix e
  assume "build_torah_manifest P fetch_sefaria_ref sidrot_list = (out, Inr m)" and "e \<in> set (units m)"
  then have b: "build_torah_manifest P fetch_sefaria_ref sidrot_list = (out, Inr m)"
    and e: "e \<in> set (units m)" by simp_all
  from build_torah_Inr [OF b]
  have "list_all2 (\<lambda>e ref. \<exists>verses. fetch_sefaria_ref ref = Inr verses \<and> verses \<noteq> []
            \<and> make_entry P ref verses = Inr e)
           (units m) (filter (\<lambda>r. fetch_sefaria_ref r \<noteq> Inr []) sidrot_list)"
    by (rule conjunct1)
  from list_all2_left_set [OF this e]
  obtain ref verses where "make_entry P ref verses = Inr e"
    by auto
  then show "sealed_root_mod19 e = 0
         \<and> (\<exists>sealed. sealed_root_hex e = hhex sealed \<and> int_from_bytes_big sealed mod 19 = 0)"
    by (rule make_entry_sealed)
next
  fix e
  assume b: "build_quran_manifest P fetch_quran_uthmani = Inr m'" and e: "e \<in> set (units m')"
  from build_quran_Inr [OF b] obtain body order where
    "list_all2 (\<lambda>e sura. \<exists>verses. map_of (quran_chapters P body) sura = Some verses
            \<and> make_entry P (lit ''Sura '' @ sura) verses = Inr e) (units m') order"
    by auto
  from list_all2_left_set [OF this e]
  obtain nm verses where "make_entry P nm verses = Inr e"
    by auto
  then show "sealed_root_mod19 e = 0
         \<and> (\<exists>sealed. sealed_root_hex e = hhex sealed \<and> int_from_bytes_big sealed mod 19 = 0)"
    by (rule make_entry_sealed)
qed

theorem sealed_root_mod19_is_zero_witness:
  "build_torah_manifest demo_prims demo_fetch demo_sidrot
     = ([warning_line (lit ''Genesis 2'')], Inr demo_torah)
   \<and> length (units demo_torah) = 2
   \<and> list_all (\<lambda>e. sealed_root_mod19 e = 0) (units demo_torah)
   \<and> build_quran_manifest demo_prims (Inr demo_text) = Inr demo_quran
   \<and> length (units demo_quran) = 2
   \<and> list_all (\<lambda>e. sealed_root_mod19 e = 0) (units demo_quran)"
proof -
  note inst = sealed_root_mod19_is_zero [of demo_prims demo_fetch demo_sidrot
      "[warning_line (lit ''Genesis 2'')]" demo_torah "Inr demo_text" demo_quran]
  from inst demo_torah_result
  have t: "list_all (\<lambda>e. sealed_root_mod19 e = 0) (units demo_torah)"
    by (simp add: list_all_iff)
  from inst demo_quran_result
  have q: "list_all (\<lambda>e. sealed_root_mod19 e = 0) (units demo_quran)"
    by (simp add: list_all_iff)
  have "length (units demo_torah) = 2" "length (units demo_quran) = 2"
    by (simp_all add: demo_torah_def demo_quran_def)
  with t q demo_torah_result demo_quran_result show ?thesis by (intro conjI)
qed

text \<open>
  Claim C7.  A unit for which no verse is retrieved is logged and left out, and the build
  goes on.  With such a reference anywhere in the list, the result of the build (the
  manifest or the failure) is the one of the list without it; once the loop has reached
  it, the loop goes on with the remaining references, the warning added to the output and
  the entries unchanged; and in a manifest that is returned, the warning for the
  reference is in the output and no entry bears its name.
\<close>

theorem empty_unit_is_skipped:
  assumes "fetch_sefaria_ref ref = Inr []"
  shows "snd (build_torah_manifest P fetch_sefaria_ref (pre @ ref # post))
           = snd (build_torah_manifest P fetch_sefaria_ref (pre @ post))
     \<and> (torah_loop P fetch_sefaria_ref pre ([], []) = (out, Inr es) \<longrightarrow>
          torah_loop P fetch_sefaria_ref (pre @ ref # post) ([], [])
            = torah_loop P fetch_sefaria_ref post (out @ [warning_line ref], es))
     \<and> (build_torah_manifest P fetch_sefaria_ref (pre @ ref # post) = (out', Inr m) \<longrightarrow>
          warning_line ref \<in> set out' \<and> ref \<notin> set (map name (units m)))"
proof (intro conjI impI)
  have "snd (torah_loop P fetch_sefaria_ref (pre @ ref # post) ([], []))
      = snd (torah_loop P fetch_sefaria_ref (pre @ post) ([], []))"
  proof (cases "torah_loop P fetch_sefaria_ref pre ([], [])")
    case (Pair o1 r1)
    show ?thesis
    proof (cases r1)
      case (Inl e)
      with Pair show ?thesis by (simp add: torah_loop_append)
    next
      case (Inr es1)
      have "snd (torah_loop P fetch_sefaria_ref post (o1 @ [warning_line ref], es1))
          = snd (torah_loop P fetch_sefaria_ref post (o1, es1))"
        by (subst torah_loop_out, subst (2) torah_loop_out) simp
      with Pair Inr assms show ?thesis by (simp add: torah_loop_append)
    qed
  qed
  then show "snd (build_torah_manifest P fetch_sefaria_ref (pre @ ref # post))
           = snd (build_torah_manifest P fetch_sefaria_ref (pre @ post))"
    by (simp add: build_torah_snd)
next
  assume "torah_loop P fetch_sefaria_ref pre ([], []) = (out, Inr es)"
  with assms show "torah_loop P fetch_sefaria_ref (pre @ ref # post) ([], [])
            = torah_loop P fetch_sefaria_ref post (out @ [warning_line ref], es)"
    by (simp add: torah_loop_append)
next
  assume b: "build_torah_manifest P fetch_sefaria_ref (pre @ ref # post) = (out', Inr m)"
  from build_torah_Inr [OF b] assms show "warning_line ref \<in> set out'"
    by simp
next
  assume b: "build_torah_manifest P fetch_sefaria_ref (pre @ ref # post) = (out', Inr m)"
  from torah_names [OF b] assms show "ref \<notin> set (map name (units m))"
    by simp
qed

theorem empty_unit_is_skipped_witness:
  "demo_fetch (lit ''Genesis 2'') = Inr []
   \<and> snd (build_torah_manifest demo_prims demo_fetch
            ([lit ''Genesis 1''] @ lit ''Genesis 2'' # [lit ''Genesis 3'']))
       = snd (build_torah_manifest demo_prims demo_fetch ([lit ''Genesis 1''] @ [lit ''Genesis 3'']))
   \<and> build_torah_manifest demo_prims demo_fetch
        ([lit ''Genesis 1''] @ lit ''Genesis 2'' # [lit ''Genesis 3''])
       = ([warning_line (lit ''Genesis 2'')], Inr demo_torah)
   \<and> warning_line (lit ''Genesis 2'') \<in> set [warning_line (lit ''Genesis 2'')]
   \<and> lit ''Genesis 2'' \<notin> set (map name (units demo_torah))"
proof -
  note inst = empty_unit_is_skipped [of demo_fetch "lit ''Genesis 2''" demo_prims
      "[lit ''Genesis 1'']" "[lit ''Genesis 3'']" "[]" "[]" "[warning_line (lit ''Genesis 2'')]"
      demo_torah, OF demo_fetch_2]
  have run: "build_torah_manifest demo_prims demo_fetch
        ([lit ''Genesis 1''] @ lit ''Genesis 2'' # [lit ''Genesis 3''])
       = ([warning_line (lit ''Genesis 2'')], Inr demo_torah)"
    using demo_torah_result by (simp add: demo_sidrot_def)
  from inst have a: "snd (build_torah_manifest demo_prims demo_fetch
            ([lit ''Genesis 1''] @ lit ''Genesis 2'' # [lit ''Genesis 3'']))
       = snd (build_torah_manifest demo_prims demo_fetch ([lit ''Genesis 1''] @ [lit ''Genesis 3'']))"
    by (rule conjunct1)
  from inst run have b: "warning_line (lit ''Genesis 2'') \<in> set [warning_line (lit ''Genesis 2'')]
      \<and> lit ''Genesis 2'' \<notin> set (map name (units demo_torah))"
    by blast
  from a b run demo_fetch_2 show ?thesis by (intro conjI) simp_all
qed

text \<open>
  Claim C8.  The entries are in the order of the units.  For the Torah builder the names
  of the entries are the references of the list, in the order of the list, with the
  references of empty units left out.  For the Qur'an builder the names are those of the
  chapters in the order the loop visits them, which is ascending chapter number, chapters
  with equal numbers staying in the order of their first line; when the chapters of the
  text already come in ascending order, this is the order of the text.
\<close>

theorem entries_in_unit_order:
  "(build_torah_manifest P fetch_sefaria_ref sidrot_list = (out, Inr m) \<longrightarrow>
      map name (units m) = filter (\<lambda>ref. fetch_sefaria_ref ref \<noteq> Inr []) sidrot_list)
   \<and> (build_quran_manifest P (Inr text) = Inr m' \<longrightarrow>
      (\<exists>ks. int_keys P (map fst (quran_chapters P text)) = Inr ks
         \<and> map snd ks = map fst (quran_chapters P text)
         \<and> map name (units m') = map (\<lambda>k. lit ''Sura '' @ snd k) (sort_key fst ks)
         \<and> sorted (map fst (sort_key fst ks))
         \<and> mset (sort_key fst ks) = mset ks
         \<and> (sorted (map fst ks) \<longrightarrow>
              map name (units m') = map (\<lambda>sura. lit ''Sura '' @ sura) (map fst (quran_chapters P text)))))"
proof (intro conjI impI)
  assume "build_torah_manifest P fetch_sefaria_ref sidrot_list = (out, Inr m)"
  then show "map name (units m) = filter (\<lambda>ref. fetch_sefaria_ref ref \<noteq> Inr []) sidrot_list"
    by (rule torah_names)
next
  assume "build_quran_manifest P (Inr text) = Inr m'"
  from quran_names [OF this] obtain ks where
    ks: "int_keys P (map fst (quran_chapters P text)) = Inr ks"
      "map snd ks = map fst (quran_chapters P text)"
      "map name (units m') = map (\<lambda>k. lit ''Sura '' @ snd k) (sort_key fst ks)"
    by auto
  have idem: "map name (units m') = map (\<lambda>sura. lit ''Sura '' @ sura) (map fst (quran_chapters P text))"
    if "sorted (map fst ks)"
  proof -
    from that have "sort_key fst ks = ks" by (rule sort_key_id_if_sorted)
    with ks(3) have "map name (units m') = map (\<lambda>sura. lit ''Sura '' @ sura) (map snd ks)"
      by (simp add: comp_def)
    with ks(2) show ?thesis by simp
  qed
  show "\<exists>ks. int_keys P (map fst (quran_chapters P text)) = Inr ks
         \<and> map snd ks = map fst (quran_chapters P text)
         \<and> map name (units m') = map (\<lambda>k. lit ''Sura '' @ snd k) (sort_key fst ks)
         \<and> sorted (map fst (sort_key fst ks))
         \<and> mset (sort_key fst ks) = mset ks
         \<and> (sorted (map fst ks) \<longrightarrow>
              map name (units m') = map (\<lambda>sura. lit ''Sura '' @ sura) (map fst (quran_chapters P text)))"
    using ks idem by (intro exI [of _ ks]) (simp add: sorted_sort_key)
qed

theorem entries_in_unit_order_witness:
  "build_torah_manifest demo_prims demo_fetch demo_sidrot
     = ([warning_line (lit ''Genesis 2'')], Inr demo_torah)
   \<and> demo_sidrot = [lit ''Genesis 1'', lit ''Genesis 2'', lit ''Genesis 3'']
   \<and> map name (units demo_torah) = [lit ''Genesis 1'', lit ''Genesis 3'']
   \<and> build_quran_manifest demo_prims (Inr demo_text) = Inr demo_quran
   \<and> map fst (quran_chapters demo_prims demo_text) = [lit ''2'', lit ''1'']
   \<and> (\<exists>ks. int_keys demo_prims (map fst (quran_chapters demo_prims demo_text)) = Inr ks
         \<and> map name (units demo_quran) = map (\<lambda>k. lit ''Sura '' @ snd k) (sort_key fst ks)
         \<and> sorted (map fst (sort_key fst ks)))"
proof -
  note inst = entries_in_unit_order [of demo_prims demo_fetch demo_sidrot
      "[warning_line (lit ''Genesis 2'')]" demo_torah demo_text demo_quran]
  from inst demo_torah_result
  have t: "map name (units demo_torah) = [lit ''Genesis 1'', lit ''Genesis 3'']"
    by (simp only: demo_nonempty_refs)
  from inst demo_quran_result
  obtain ks where "int_keys demo_prims (map fst (quran_chapters demo_prims demo_text)) = Inr ks"
    and "map name (units demo_quran) = map (\<lambda>k. lit ''Sura '' @ snd k) (sort_key fst ks)"
    and "sorted (map fst (sort_key fst ks))"
    by blast
  then have q: "\<exists>ks. int_keys demo_prims (map fst (quran_chapters demo_prims demo_text)) = Inr ks
         \<and> map name (units demo_quran) = map (\<lambda>k. lit ''Sura '' @ snd k) (sort_key fst ks)
         \<and> sorted (map fst (sort_key fst ks))"
    by (intro exI [of _ ks] conjI)
  have c: "map fst (quran_chapters demo_prims demo_text) = [lit ''2'', lit ''1'']"
    by (simp add: demo_chapters)
  from t q c demo_torah_result demo_quran_result demo_sidrot_def show ?thesis by (intro conjI)
qed

text \<open>
  Claim C9.  In every entry, \<open>verse_count\<close> is the number of verses of the unit and of
  leaf hashes, and the element of \<open>verse_hashes_hex\<close> at position \<open>i\<close> is the hexadecimal
  form of the hash of the UTF-8 encoding of the verse at position \<open>i\<close>.  The verses of a
  Torah unit are those the fetch returns, the verses of a Qur'an chapter those of the lines
  of the text with the chapter's number, in the order of the lines.  The hexadecimal form
  has two characters per byte, all of them digits or lowercase letters from a to f.
\<close>

theorem leaf_digests_in_verse_order:
  "(build_torah_manifest P fetch_sefaria_ref sidrot_list = (out, Inr m) \<longrightarrow>
      list_all2 (\<lambda>e ref. \<exists>verses. fetch_sefaria_ref ref = Inr verses \<and> leaf_hex_ok P e verses)
        (units m) (filter (\<lambda>ref. fetch_sefaria_ref ref \<noteq> Inr []) sidrot_list))
   \<and> (build_quran_manifest P (Inr body) = Inr m' \<longrightarrow>
      (\<exists>order. sorted_by_int P (map fst (quran_chapters P body)) = Inr order
         \<and> list_all2 (\<lambda>e sura. leaf_hex_ok P e (verses_of_sura P body sura)) (units m') order))
   \<and> set (hhex d) \<subseteq> set (lit ''0123456789abcdef'') \<and> length (hhex d) = 2 * length d"
proof (intro conjI impI)
  assume "build_torah_manifest P fetch_sefaria_ref sidrot_list = (out, Inr m)"
  from build_torah_Inr [OF this]
  have "list_all2 (\<lambda>e ref. \<exists>verses. fetch_sefaria_ref ref = Inr verses \<and> verses \<noteq> []
            \<and> make_entry P ref verses = Inr e)
           (units m) (filter (\<lambda>r. fetch_sefaria_ref r \<noteq> Inr []) sidrot_list)"
    by (rule conjunct1)
  then show "list_all2 (\<lambda>e ref. \<exists>verses. fetch_sefaria_ref ref = Inr verses \<and> leaf_hex_ok P e verses)
        (units m) (filter (\<lambda>ref. fetch_sefaria_ref ref \<noteq> Inr []) sidrot_list)"
    by (rule list_all2_mono) (auto dest: make_entry_leaf)
next
  assume "build_quran_manifest P (Inr body) = Inr m'"
  from build_quran_Inr [OF this] obtain order where
    srt: "sorted_by_int P (map fst (quran_chapters P body)) = Inr order"
    and l: "list_all2 (\<lambda>e sura. \<exists>verses. map_of (quran_chapters P body) sura = Some verses
            \<and> make_entry P (lit ''Sura '' @ sura) verses = Inr e) (units m') order"
    by auto
  from l have "list_all2 (\<lambda>e sura. leaf_hex_ok P e (verses_of_sura P body sura)) (units m') order"
    by (rule list_all2_mono) (auto dest: make_entry_leaf quran_chapters_lookup)
  with srt show "\<exists>order. sorted_by_int P (map fst (quran_chapters P body)) = Inr order
         \<and> list_all2 (\<lambda>e sura. leaf_hex_ok P e (verses_of_sura P body sura)) (units m') order"
    by (intro exI [of _ order] conjI)
next
  show "set (hhex d) \<subseteq> set (lit ''0123456789abcdef'')"
    using hhex_lowercase by (rule conjunct1)
next
  show "length (hhex d) = 2 * length d"
    using hhex_lowercase by (rule conjunct2)
qed

theorem leaf_digests_in_verse_order_witness:
  "build_torah_manifest demo_prims demo_fetch demo_sidrot
     = ([warning_line (lit ''Genesis 2'')], Inr demo_torah)
   \<and> list_all2 (\<lambda>e ref. \<exists>verses. demo_fetch ref = Inr verses \<and> leaf_hex_ok demo_prims e verses)
        (units demo_torah) [lit ''Genesis 1'', lit ''Genesis 3'']
   \<and> build_quran_manifest demo_prims (Inr demo_text) = Inr demo_quran
   \<and> (\<exists>order. sorted_by_int demo_prims (map fst (quran_chapters demo_prims demo_text)) = Inr order
         \<and> list_all2 (\<lambda>e sura. leaf_hex_ok demo_prims e (verses_of_sura demo_prims demo_text sura))
              (units demo_quran) order)"
proof -
  note inst = leaf_digests_in_verse_order [of demo_prims demo_fetch demo_sidrot
      "[warning_line (lit ''Genesis 2'')]" demo_torah demo_text demo_quran "[]"]
  from inst demo_torah_result
  have t: "list_all2 (\<lambda>e ref. \<exists>verses. demo_fetch ref = Inr verses \<and> leaf_hex_ok demo_prims e verses)
        (units demo_torah) [lit ''Genesis 1'', lit ''Genesis 3'']"
    by (simp only: demo_nonempty_refs)
  from inst demo_quran_result
  have q: "\<exists>order. sorted_by_int demo_prims (map fst (quran_chapters demo_prims demo_text)) = Inr order
         \<and> list_all2 (\<lambda>e sura. leaf_hex_ok demo_prims e (verses_of_sura demo_prims demo_text sura))
              (units demo_quran) order"
    by blast
  from t q demo_torah_result demo_quran_result show ?thesis by (intro conjI)
qed

end
